theory Spec2Isabelle
  imports Complex_Main
begin

section \<open>Data model of the routing service (app.py)\<close>

text \<open>
  Node identifiers and edge identifiers are strings. Python floats are modelled as
  real numbers and Python ints as integers.
\<close>

type_synonym node = string

text \<open>
  The attribute dictionary that \<open>load_graph\<close> attaches to every edge: it always sets
  \<open>id\<close>, \<open>length_m\<close>, \<open>capacity\<close>, \<open>kind\<close> and \<open>weight\<close>, so the defaults of the
  later \<open>data.get(..)\<close> calls are never taken. The key \<open>pen_weight\<close> exists only in
  the dictionaries of a penalized copy.
\<close>

record edge_data =
  id_attr :: string
  length_m :: real
  capacity :: real
  kind :: string
  weight :: real
  pen_weight :: "real option"

text \<open>The attributes \<open>load_graph\<close> gives a node.\<close>

record node_data =
  lat :: real
  lon :: real
  label :: string

text \<open>One record of a forecast table: \<open>{"edge_id", "pred_flow", "capacity"}\<close>.\<close>

record forecast_entry =
  edge_id :: string
  pred_flow :: real
  f_capacity :: real

text \<open>
  \<open>app.forecast_map\<close> is a dictionary from edge identifier to record, built by a
  dictionary comprehension over the table. It is kept as the list of its (key, value)
  insertions; a later insertion for the same key wins.
\<close>

type_synonym forecast_dict = "(string \<times> forecast_entry) list"

definition dict_get :: "('k \<times> 'v) list \<Rightarrow> 'k \<Rightarrow> 'v option" where
  "dict_get d k = map_of (rev d) k"

subsection \<open>Graph, store and process state\<close>

text \<open>
  A NetworkX graph shares one attribute dictionary per edge between all views of the
  graph, and \<open>build_penalized_graph\<close> writes into the dictionaries of a copy. The
  dictionaries therefore live in a store, and a graph holds their addresses.
  \<open>nodes\<close> is \<open>G.nodes\<close> in insertion order (\<open>None\<close>: a node that \<open>add_edge\<close> created
  without attributes); \<open>edges\<close> is \<open>G.edges\<close>, each undirected edge once.
\<close>

type_synonym addr = nat

record graph =
  nodes :: "(node \<times> node_data option) list"
  edges :: "(node \<times> node \<times> addr) list"

type_synonym forecast_table = "forecast_entry list"

type_synonym forecast_key = "real \<times> int \<times> int"

record state =
  heap :: "addr \<Rightarrow> edge_data"
  next_addr :: addr
  GRAPH :: graph
  FORECAST_CACHE :: "forecast_key \<Rightarrow> forecast_table option"
  forecast_map :: "forecast_dict option"

datatype py_error = ValueError | KeyError | NetworkXNoPath | NodeNotFound

text \<open>
  What a Flask view hands back: a JSON body with status 200, an \<open>{"error": ..}\<close> body
  with its status, or an exception that leaves the view (Flask answers 500).
\<close>

datatype 'a response = Ok 'a | Err nat string | Crash py_error

text \<open>
  A query parameter that the view converts with \<open>int(..)\<close> or \<open>float(..)\<close> is
  represented by the outcome of the conversion; an absent parameter is \<open>None\<close>.
\<close>

datatype 'a parsed = Unparsable | Parsed 'a

text \<open>\<open>G.edges(data=True)\<close> and \<open>u in G\<close>.\<close>

definition graph_edges :: "(addr \<Rightarrow> edge_data) \<Rightarrow> graph \<Rightarrow> (node \<times> node \<times> edge_data) list" where
  "graph_edges h g = map (\<lambda>(u, v, a). (u, v, h a)) (edges g)"

definition in_graph :: "node \<Rightarrow> graph \<Rightarrow> bool" where
  "in_graph n g = (n \<in> set (map fst (nodes g)))"

text \<open>\<open>G.get_edge_data(u, v)\<close> on an undirected graph; \<open>None\<close> when there is no edge.\<close>

definition get_edge_data :: "(node \<times> node \<times> 'd) list \<Rightarrow> node \<Rightarrow> node \<Rightarrow> 'd option" where
  "get_edge_data es u v =
     map_option (\<lambda>(a, b, d). d)
       (find (\<lambda>(a, b, d). (a = u \<and> b = v) \<or> (a = v \<and> b = u)) es)"

subsection \<open>Forecast\<close>

text \<open>
  One row of the data frame of \<open>predict_forecast\<close>. The predictor sees the columns
  \<open>FEATURES\<close> only, in that order.
\<close>

record feature_row =
  r_edge_id :: string
  x_hour :: real
  x_day_of_week :: int
  x_is_peak :: int
  x_capacity :: real
  x_length_m :: real
  x_flow_lag1 :: real
  x_flow_lag2 :: real

definition FEATURES :: "feature_row \<Rightarrow> real list" where
  "FEATURES r = [x_hour r, of_int (x_day_of_week r), of_int (x_is_peak r), x_capacity r,
                 x_length_m r, x_flow_lag1 r, x_flow_lag2 r]"

text \<open>
  \<open>predict_forecast\<close>. \<open>MODEL\<close> is the loaded regressor: its \<open>predict\<close> maps the
  feature matrix to a sequence of numbers. Selecting the feature columns of a frame built
  from no rows raises \<open>KeyError\<close>; assigning a column of the wrong length raises
  \<open>ValueError\<close>.
\<close>

definition predict_forecast ::
  "(real list list \<Rightarrow> real list) \<Rightarrow> (node \<times> node \<times> edge_data) list \<Rightarrow> real \<Rightarrow> int \<Rightarrow> int
    \<Rightarrow> py_error + forecast_table" where
  "predict_forecast MODEL graph_edges_data hour day_of_week is_peak =
     (let rows = map (\<lambda>(u, v, data).
                   let cap = capacity data; len = length_m data in
                   \<lparr>r_edge_id = id_attr data, x_hour = hour, x_day_of_week = day_of_week,
                    x_is_peak = is_peak, x_capacity = cap, x_length_m = len,
                    x_flow_lag1 = 0.1 * cap, x_flow_lag2 = 0.1 * cap\<rparr>) graph_edges_data
      in if rows = [] then Inl KeyError
         else let preds = MODEL (map FEATURES rows) in
           if length preds \<noteq> length rows then Inl ValueError
           else Inr (map (\<lambda>(r, p). \<lparr>edge_id = r_edge_id r, pred_flow = p,
                                     f_capacity = x_capacity r\<rparr>) (zip rows preds)))"

text \<open>The query of \<open>/forecast\<close>.\<close>

record forecast_request =
  hour_arg :: "real parsed option"
  day_of_week_arg :: "int parsed option"
  is_peak_arg :: "int parsed option"
  use_cache_arg :: "string option"

text \<open>\<open>str.lower\<close> on the ASCII letters, which decide the comparison with \<open>"false"\<close>.\<close>

definition lower :: "string \<Rightarrow> string" where
  "lower s = map (\<lambda>c. case map_of (zip ''ABCDEFGHIJKLMNOPQRSTUVWXYZ''
                                         ''abcdefghijklmnopqrstuvwxyz'') c of
                          Some l \<Rightarrow> l | None \<Rightarrow> c) s"

text \<open>The dictionary comprehension \<open>{r["edge_id"]: r for r in result}\<close>.\<close>

definition by_edge_id :: "forecast_table \<Rightarrow> forecast_dict" where
  "by_edge_id result = map (\<lambda>r. (edge_id r, r)) result"

definition arg_or :: "'a parsed option \<Rightarrow> 'a \<Rightarrow> 'a parsed" where
  "arg_or a dflt = (case a of None \<Rightarrow> Parsed dflt | Some p \<Rightarrow> p)"

text \<open>\<open>request.args.get("use_cache", "true").lower() != "false"\<close>.\<close>

definition use_cache :: "forecast_request \<Rightarrow> bool" where
  "use_cache req =
     (lower (case use_cache_arg req of None \<Rightarrow> ''true'' | Some s \<Rightarrow> s) \<noteq> ''false'')"

definition forecast ::
  "(real list list \<Rightarrow> real list) \<Rightarrow> forecast_request \<Rightarrow> state
    \<Rightarrow> forecast_table response \<times> state" where
  "forecast MODEL req st =
     (case (arg_or (hour_arg req) 9, arg_or (day_of_week_arg req) 1,
            arg_or (is_peak_arg req) 1) of
        (Parsed hour, Parsed day_of_week, Parsed is_peak) \<Rightarrow>
          (let key = (hour, day_of_week, is_peak)
           in if use_cache req \<and> FORECAST_CACHE st key \<noteq> None then
                (case FORECAST_CACHE st key of
                   Some result \<Rightarrow>
                     (Ok result,
                      st\<lparr>forecast_map := Some (by_edge_id result)\<rparr>)
                 | None \<Rightarrow> (Crash KeyError, st))
              else
                (case predict_forecast MODEL (graph_edges (heap st) (GRAPH st))
                        hour day_of_week is_peak of
                   Inl e \<Rightarrow> (Crash e, st)
                 | Inr result \<Rightarrow>
                     (Ok result,
                      st\<lparr>FORECAST_CACHE := (FORECAST_CACHE st)(key \<mapsto> result),
                         forecast_map := Some (by_edge_id result)\<rparr>)))
      | _ \<Rightarrow> (Err 400 ''invalid hour/day_of_week/is_peak'', st))"

section \<open>Congestion model\<close>

text \<open>
  \<open>congestion_penalty\<close>: the first argument is the attribute \<open>forecast_map\<close> of the
  application object, \<open>None\<close> when it was never set (\<open>getattr(app, "forecast_map", {})\<close>).
\<close>

definition congestion_penalty :: "forecast_dict option \<Rightarrow> string \<Rightarrow> real" where
  "congestion_penalty fm e =
     (let forecast_map = (case fm of None \<Rightarrow> [] | Some d \<Rightarrow> d) in
      case dict_get forecast_map e of
        None \<Rightarrow> 0
      | Some f \<Rightarrow>
          (let ratio = pred_flow f / max (f_capacity f) 1 in
           if ratio < 0.5 then 0
           else if ratio < 0.8 then 0.3
           else 0.7))"

section \<open>Path search\<close>

text \<open>
  Modelled from the spec: \<open>astar_path\<close> and \<open>shortest_simple_paths\<close> are NetworkX
  functions and not part of the sources. The single-path search is the informed
  best-first search of section 4.3: a priority queue of (priority, distance, node,
  parents) entries ordered by distance plus heuristic, ties broken by discovery order, a
  closed set of explored nodes, and failure with \<open>NetworkXNoPath\<close> when the queue runs
  empty. Endpoints absent from the graph fail with \<open>NodeNotFound\<close> before the search.
  An undirected edge \<open>(a, b, d)\<close> is traversed in both directions.
\<close>

type_synonym queue_entry = "real \<times> real \<times> node \<times> node list"

definition neighbors :: "(node \<times> node \<times> 'd) list \<Rightarrow> node \<Rightarrow> (node \<times> 'd) list" where
  "neighbors es u =
     concat (map (\<lambda>(a, b, d). (if a = u then [(b, d)] else [])
                               @ (if b = u \<and> a \<noteq> u then [(a, d)] else [])) es)"

fun min_entry :: "real \<times> 'a \<Rightarrow> (real \<times> 'a) list \<Rightarrow> real \<times> 'a" where
  "min_entry e [] = e"
| "min_entry e (x # xs) = (if fst x < fst e then min_entry x xs else min_entry e xs)"

definition successors ::
  "(node \<times> node \<times> 'd) list \<Rightarrow> node \<Rightarrow> (node \<Rightarrow> node \<Rightarrow> real) \<Rightarrow> (node \<Rightarrow> node \<Rightarrow> 'd \<Rightarrow> real)
     \<Rightarrow> node list \<Rightarrow> real \<Rightarrow> node \<Rightarrow> node list \<Rightarrow> queue_entry list" where
  "successors es target heuristic cost explored cur_dist curnode parents =
     map (\<lambda>(v, d). (cur_dist + cost curnode v d + heuristic v target, cur_dist + cost curnode v d,
                     v, curnode # parents))
       (filter (\<lambda>(v, d). v \<noteq> curnode \<and> v \<notin> set explored) (neighbors es curnode))"

function astar_loop ::
  "(node \<times> node \<times> 'd) list \<Rightarrow> node \<Rightarrow> (node \<Rightarrow> node \<Rightarrow> real) \<Rightarrow> (node \<Rightarrow> node \<Rightarrow> 'd \<Rightarrow> real)
     \<Rightarrow> queue_entry list \<Rightarrow> node list \<Rightarrow> node list option" where
  "astar_loop es target heuristic cost queue explored =
     (case queue of
        [] \<Rightarrow> None
      | x # xs \<Rightarrow>
          (case min_entry x xs of (f, cur_dist, curnode, parents) \<Rightarrow>
             if curnode = target then Some (rev (curnode # parents))
             else if curnode \<in> set explored then
               astar_loop es target heuristic cost
                 (remove1 (f, cur_dist, curnode, parents) queue) explored
             else
               astar_loop es target heuristic cost
                 (remove1 (f, cur_dist, curnode, parents) queue
                    @ successors es target heuristic cost explored cur_dist curnode parents)
                 (curnode # explored)))"
  by pat_completeness auto

definition graph_nodes :: "(node \<times> node \<times> 'd) list \<Rightarrow> node set" where
  "graph_nodes es = (\<lambda>(a, b, d). a) ` set es \<union> (\<lambda>(a, b, d). b) ` set es"

definition entry_node :: "queue_entry \<Rightarrow> node" where
  "entry_node e = fst (snd (snd e))"

lemma min_entry_in: "min_entry e xs \<in> set (e # xs)"
  by (induction xs arbitrary: e) auto

lemma min_entry_le_aux:
  "fst (min_entry e xs) \<le> fst e \<and> (\<forall>y \<in> set xs. fst (min_entry e xs) \<le> fst y)"
proof (induction xs arbitrary: e)
  case Nil
  show ?case by simp
next
  case (Cons x xs)
  show ?case
  proof (cases "fst x < fst e")
    case True
    then show ?thesis using Cons [of x] by (auto intro: order_trans)
  next
    case False
    then show ?thesis using Cons [of e] by (auto intro: order_trans)
  qed
qed

lemma min_entry_le: "y \<in> set (e # xs) \<Longrightarrow> fst (min_entry e xs) \<le> fst y"
  using min_entry_le_aux [of e xs] by auto

lemma neighbors_in_graph: "(v, d) \<in> set (neighbors es u) \<Longrightarrow> v \<in> graph_nodes es"
  by (auto simp: neighbors_def graph_nodes_def split: if_splits) force+

lemma successors_nodes:
  "e \<in> set (successors es t h c ex cur_dist u ps) \<Longrightarrow> entry_node e \<in> graph_nodes es"
  by (auto simp: successors_def entry_node_def dest: neighbors_in_graph)

lemma astar_skip_decreases:
  assumes "e \<in> set queue"
  shows "card ((graph_nodes es \<union> entry_node ` set (remove1 e queue)) - set explored)
           \<le> card ((graph_nodes es \<union> entry_node ` set queue) - set explored)"
    and "length (remove1 e queue) < length queue"
proof -
  have fin: "finite ((graph_nodes es \<union> entry_node ` set queue) - set explored)"
    by (simp add: graph_nodes_def)
  have "set (remove1 e queue) \<subseteq> set queue"
    by (rule set_remove1_subset)
  then show "card ((graph_nodes es \<union> entry_node ` set (remove1 e queue)) - set explored)
           \<le> card ((graph_nodes es \<union> entry_node ` set queue) - set explored)"
    by (intro card_mono [OF fin]) blast
  show "length (remove1 e queue) < length queue"
    using assms length_pos_if_in_set [OF assms] by (simp add: length_remove1)
qed

lemma astar_expand_decreases:
  assumes "(f, g, u, ps) \<in> set queue" "u \<notin> set explored"
  shows "card ((graph_nodes es \<union> entry_node ` set (remove1 (f, g, u, ps) queue
                   @ successors es t h c explored g u ps)) - set (u # explored))
           < card ((graph_nodes es \<union> entry_node ` set queue) - set explored)"
proof -
  let ?S = "(graph_nodes es \<union> entry_node ` set queue) - set explored"
  have fin: "finite ?S"
    by (simp add: graph_nodes_def)
  have cur: "u \<in> ?S"
    using assms by (force simp: entry_node_def)
  have "(graph_nodes es \<union> entry_node ` set (remove1 (f, g, u, ps) queue
                   @ successors es t h c explored g u ps)) - set (u # explored)
        \<subseteq> ?S - {u}"
    using successors_nodes [of _ es t h c explored g u ps]
      set_remove1_subset [of "(f, g, u, ps)" queue]
    by auto
  then have "card ((graph_nodes es \<union> entry_node ` set (remove1 (f, g, u, ps) queue
                   @ successors es t h c explored g u ps)) - set (u # explored))
        \<le> card (?S - {u})"
    using fin by (intro card_mono) auto
  also have "\<dots> < card ?S"
    using fin cur by (intro psubset_card_mono) auto
  finally show ?thesis .
qed

termination astar_loop
proof (relation "measures
    [\<lambda>(es, target, h, cost, queue, explored).
        card ((graph_nodes es \<union> entry_node ` set queue) - set explored),
     \<lambda>(es, target, h, cost, queue, explored). length queue]", goal_cases)
  case 1
  show ?case by simp
next
  case (2 es target h cost queue explored x xs f y g z u ps)
  then have mem: "(f, g, u, ps) \<in> set queue"
    using min_entry_in [of x xs] by (metis)
  have "card ((graph_nodes es \<union> entry_node ` set (remove1 (f, g, u, ps) queue)) - set explored)
           \<le> card ((graph_nodes es \<union> entry_node ` set queue) - set explored)"
    by (rule astar_skip_decreases(1) [OF mem])
  moreover have "length (remove1 (f, g, u, ps) queue) < length queue"
    by (rule astar_skip_decreases(2) [OF mem])
  ultimately show ?case by auto
next
  case (3 es target h cost queue explored x xs f y g z u ps)
  then have mem: "(f, g, u, ps) \<in> set queue"
    using min_entry_in [of x xs] by (metis)
  have "u \<notin> set explored" using 3 by simp
  then have "card ((graph_nodes es \<union> entry_node ` set (remove1 (f, g, u, ps) queue
                   @ successors es target h cost explored g u ps)) - set (u # explored))
           < card ((graph_nodes es \<union> entry_node ` set queue) - set explored)"
    by (rule astar_expand_decreases [OF mem])
  then show ?case by simp
qed

definition astar_path ::
  "node list \<Rightarrow> (node \<times> node \<times> 'd) list \<Rightarrow> node \<Rightarrow> node \<Rightarrow> (node \<Rightarrow> node \<Rightarrow> real)
     \<Rightarrow> (node \<Rightarrow> node \<Rightarrow> 'd \<Rightarrow> real) \<Rightarrow> py_error + node list" where
  "astar_path ns es source target heuristic cost =
     (if source \<notin> set ns \<or> target \<notin> set ns then Inl NodeNotFound
      else case astar_loop es target heuristic cost [(heuristic source target, 0, source, [])] [] of
             None \<Rightarrow> Inl NetworkXNoPath
           | Some path \<Rightarrow> Inr path)"

declare astar_loop.simps [simp del]

text \<open>
  Modelled from the spec: the k loopless alternatives of section 4.4, a generator in the
  style of Yen. \<open>listA\<close> holds the accepted paths, \<open>listB\<close> the priority queue of
  unexpanded candidates with their total cost, in discovery order. Each step derives
  new candidates from the previously accepted path: for every proper prefix (root) it
  forbids the root's earlier nodes and the next edge of every accepted path sharing the
  root, and searches the remainder with the single-path search. The cheapest candidate,
  the earliest among equals, is then accepted and yielded. The first step runs the
  single-path search on the whole graph and fails with \<open>NetworkXNoPath\<close> when it finds
  nothing.
\<close>

definition path_cost ::
  "(node \<times> node \<times> 'd) list \<Rightarrow> (node \<Rightarrow> node \<Rightarrow> 'd \<Rightarrow> real) \<Rightarrow> node list \<Rightarrow> real" where
  "path_cost es cost p =
     sum_list (map (\<lambda>(u, v). case get_edge_data es u v of None \<Rightarrow> 0 | Some d \<Rightarrow> cost u v d)
                 (zip p (tl p)))"

record gen =
  listA :: "node list list"
  listB :: "(real \<times> node list) list"
  prev_path :: "node list option"

definition without_ignored ::
  "(node \<times> node \<times> 'd) list \<Rightarrow> node list \<Rightarrow> (node \<times> node) list \<Rightarrow> (node \<times> node \<times> 'd) list" where
  "without_ignored es ignore_nodes ignore_edges =
     filter (\<lambda>(a, b, d). a \<notin> set ignore_nodes \<and> b \<notin> set ignore_nodes
                        \<and> (a, b) \<notin> set ignore_edges \<and> (b, a) \<notin> set ignore_edges) es"

text \<open>
  The edges forbidden for the root of length \<open>i\<close>: the step that follows the root in
  every accepted path sharing it.
\<close>

definition ignore_edges_of :: "node list list \<Rightarrow> nat \<Rightarrow> node list \<Rightarrow> (node \<times> node) list" where
  "ignore_edges_of A i root_path =
     concat (map (\<lambda>p. if take i p = root_path
                       then (case drop (i - 1) p of a # b # rest \<Rightarrow> [(a, b)] | _ \<Rightarrow> [])
                       else []) A)"

text \<open>The candidate that deviates from \<open>prev\<close> after its first \<open>i\<close> nodes, if there is one.\<close>

definition deviation ::
  "(node \<times> node \<times> 'd) list \<Rightarrow> node \<Rightarrow> (node \<Rightarrow> node \<Rightarrow> 'd \<Rightarrow> real) \<Rightarrow> node list list \<Rightarrow> node list
     \<Rightarrow> nat \<Rightarrow> (real \<times> node list) list" where
  "deviation es target cost A prev i =
     (let root = take i prev;
          ignore_nodes = butlast root;
          ignore_edges = ignore_edges_of A i root
      in case astar_loop (without_ignored es ignore_nodes ignore_edges) target (\<lambda>u v. 0) cost
                [(0, 0, last root, [])] [] of
           None \<Rightarrow> []
         | Some spur \<Rightarrow> [(path_cost es cost (butlast root @ spur), butlast root @ spur)])"

definition deviations ::
  "(node \<times> node \<times> 'd) list \<Rightarrow> node \<Rightarrow> (node \<Rightarrow> node \<Rightarrow> 'd \<Rightarrow> real) \<Rightarrow> node list list \<Rightarrow> node list
     \<Rightarrow> (real \<times> node list) list" where
  "deviations es target cost A prev =
     concat (map (deviation es target cost A prev) [1..<length prev])"

definition push_all :: "(real \<times> node list) list \<Rightarrow> (real \<times> node list) list \<Rightarrow> (real \<times> node list) list" where
  "push_all B cands = foldl (\<lambda>B c. if snd c \<in> snd ` set B then B else B @ [c]) B cands"

definition pop_next :: "gen \<Rightarrow> (node list \<times> gen) option" where
  "pop_next g =
     (case listB g of
        [] \<Rightarrow> None
      | x # xs \<Rightarrow>
          (case min_entry x xs of (c, p) \<Rightarrow>
             Some (p, \<lparr>listA = listA g @ [p], listB = remove1 (c, p) (listB g),
                       prev_path = Some p\<rparr>)))"

definition ssp_next ::
  "(node \<times> node \<times> 'd) list \<Rightarrow> node \<Rightarrow> node \<Rightarrow> (node \<Rightarrow> node \<Rightarrow> 'd \<Rightarrow> real) \<Rightarrow> gen
     \<Rightarrow> py_error + (node list \<times> gen) option" where
  "ssp_next es source target cost g =
     (case prev_path g of
        None \<Rightarrow>
          (case astar_loop es target (\<lambda>u v. 0) cost [(0, 0, source, [])] [] of
             None \<Rightarrow> Inl NetworkXNoPath
           | Some p \<Rightarrow> Inr (pop_next (g\<lparr>listB := push_all (listB g) [(path_cost es cost p, p)]\<rparr>)))
      | Some prev \<Rightarrow>
          Inr (pop_next (g\<lparr>listB := push_all (listB g)
                                        (deviations es target cost (listA g) prev)\<rparr>)))"

function k_shortest_paths_loop ::
  "(node \<times> node \<times> 'd) list \<Rightarrow> node \<Rightarrow> node \<Rightarrow> (node \<Rightarrow> node \<Rightarrow> 'd \<Rightarrow> real) \<Rightarrow> gen
     \<Rightarrow> node list list \<Rightarrow> int \<Rightarrow> py_error + node list list" where
  "k_shortest_paths_loop es source target cost g paths k =
     (case ssp_next es source target cost g of
        Inl e \<Rightarrow> Inl e
      | Inr None \<Rightarrow> Inr paths
      | Inr (Some (path, g')) \<Rightarrow>
          (if int (length (paths @ [path])) \<ge> k then Inr (paths @ [path])
           else k_shortest_paths_loop es source target cost g' (paths @ [path]) k))"
  by pat_completeness auto
termination
  by (relation "measure (\<lambda>(es, source, target, cost, g, paths, k). nat (k - int (length paths)))")
     auto

declare k_shortest_paths_loop.simps [simp del]

definition k_shortest_paths ::
  "(node \<times> node \<times> 'd) list \<Rightarrow> node \<Rightarrow> node \<Rightarrow> (node \<Rightarrow> node \<Rightarrow> 'd \<Rightarrow> real) \<Rightarrow> int
     \<Rightarrow> py_error + node list list" where
  "k_shortest_paths es source target cost k =
     k_shortest_paths_loop es source target cost
       \<lparr>listA = [], listB = [], prev_path = None\<rparr> [] k"

section \<open>Routing\<close>

text \<open>
  \<open>astar_with_congestion\<close> and \<open>astar_distance_only\<close> search \<open>GRAPH\<close> with the zero
  heuristic; the edge cost is the length times one plus the congestion penalty, or the
  length alone.
\<close>

definition astar_with_congestion :: "state \<Rightarrow> node \<Rightarrow> node \<Rightarrow> py_error + node list" where
  "astar_with_congestion st source target =
     astar_path (map fst (nodes (GRAPH st))) (graph_edges (heap st) (GRAPH st)) source target
       (\<lambda>u v. 0)
       (\<lambda>u v data. let base = length_m data;
                        pen = congestion_penalty (forecast_map st) (id_attr data)
                    in base * (1 + pen))"

definition astar_distance_only :: "state \<Rightarrow> node \<Rightarrow> node \<Rightarrow> py_error + node list" where
  "astar_distance_only st source target =
     astar_path (map fst (nodes (GRAPH st))) (graph_edges (heap st) (GRAPH st)) source target
       (\<lambda>u v. 0) (\<lambda>u v data. length_m data)"

text \<open>\<open>path_length\<close>: a pair of nodes without an edge adds nothing.\<close>

definition path_length :: "state \<Rightarrow> node list \<Rightarrow> real" where
  "path_length st path =
     foldl (\<lambda>total (u, v).
              total + (case get_edge_data (graph_edges (heap st) (GRAPH st)) u v of
                         None \<Rightarrow> 0 | Some data \<Rightarrow> length_m data))
       0 (zip path (tl path))"

text \<open>
  Modelled from the spec: \<open>Graph.copy\<close> of NetworkX is not part of the sources. The
  penalized graph view is a per-query structure derived from the network graph: the copy
  has the nodes and edges of the original, and every edge of the copy gets an attribute
  dictionary of its own, with the contents of the original's, at a fresh address.
\<close>

fun copy_edges ::
  "(addr \<Rightarrow> edge_data) \<Rightarrow> addr \<Rightarrow> (node \<times> node \<times> addr) list
     \<Rightarrow> (addr \<Rightarrow> edge_data) \<times> addr \<times> (node \<times> node \<times> addr) list" where
  "copy_edges h n [] = (h, n, [])"
| "copy_edges h n ((u, v, a) # es) =
     (case copy_edges (h(n := h a)) (Suc n) es of
        (h', n', es') \<Rightarrow> (h', n', (u, v, n) # es'))"

definition copy :: "graph \<Rightarrow> state \<Rightarrow> graph \<times> state" where
  "copy g st =
     (case copy_edges (heap st) (next_addr st) (edges g) of
        (h', n', es') \<Rightarrow> (g\<lparr>edges := es'\<rparr>, st\<lparr>heap := h', next_addr := n'\<rparr>))"

text \<open>
  \<open>build_penalized_graph\<close>: the loop body writes \<open>pen_weight\<close> into the attribute
  dictionary of one edge of the copy; the loop runs over all its edges.
\<close>

definition set_pen_weight ::
  "forecast_dict option \<Rightarrow> node \<times> node \<times> addr \<Rightarrow> (addr \<Rightarrow> edge_data) \<Rightarrow> addr \<Rightarrow> edge_data" where
  "set_pen_weight fm = (\<lambda>(u, v, a) h.
     let data = h a;
         pen = congestion_penalty fm (id_attr data);
         base = length_m data
     in h(a := data\<lparr>pen_weight := Some (base * (1 + pen))\<rparr>))"

definition build_penalized_graph :: "state \<Rightarrow> graph \<times> state" where
  "build_penalized_graph st =
     (case copy (GRAPH st) st of
        (Gp, st') \<Rightarrow>
          (Gp, st'\<lparr>heap := fold (set_pen_weight (forecast_map st')) (edges Gp) (heap st')\<rparr>))"

text \<open>
  The weight of an edge under an attribute name, as \<open>shortest_simple_paths\<close> reads it:
  the attribute, or 1 where the dictionary does not have it.
\<close>

definition weight_attr :: "string \<Rightarrow> node \<Rightarrow> node \<Rightarrow> edge_data \<Rightarrow> real" where
  "weight_attr name u v data =
     (if name = ''weight'' then weight data
      else if name = ''pen_weight'' then (case pen_weight data of Some w \<Rightarrow> w | None \<Rightarrow> 1)
      else 1)"

text \<open>The response of \<open>/route\<close>.\<close>

record coord =
  c_id :: node
  c_lat :: real
  c_lon :: real
  c_label :: string

record route_item =
  path :: "node list"
  len_m :: real
  coords :: "coord list"

record route_out =
  best :: "route_item option"
  best_alts :: "route_item list option"
  shortest :: "route_item option"
  shortest_alts :: "route_item list option"

text \<open>
  The list comprehension over \<open>GRAPH.nodes[n]["lat"]\<close>, \<open>["lon"]\<close>, \<open>["label"]\<close>: a node
  that is unknown or has no attributes raises \<open>KeyError\<close>.
\<close>

fun coords_of :: "graph \<Rightarrow> node list \<Rightarrow> py_error + coord list" where
  "coords_of g [] = Inr []"
| "coords_of g (n # ns) =
     (case map_of (nodes g) n of
        Some (Some d) \<Rightarrow>
          (case coords_of g ns of
             Inl e \<Rightarrow> Inl e
           | Inr cs \<Rightarrow> Inr (\<lparr>c_id = n, c_lat = lat d, c_lon = lon d, c_label = label d\<rparr> # cs))
      | _ \<Rightarrow> Inl KeyError)"

definition route_entry :: "state \<Rightarrow> node list \<Rightarrow> py_error + route_item" where
  "route_entry st p =
     (case coords_of (GRAPH st) p of
        Inl e \<Rightarrow> Inl e
      | Inr cs \<Rightarrow> Inr \<lparr>path = p, len_m = path_length st p, coords = cs\<rparr>)"

fun route_entries :: "state \<Rightarrow> node list list \<Rightarrow> py_error + route_item list" where
  "route_entries st [] = Inr []"
| "route_entries st (p # ps) =
     (case route_entry st p of
        Inl e \<Rightarrow> Inl e
      | Inr x \<Rightarrow> (case route_entries st ps of Inl e \<Rightarrow> Inl e | Inr xs \<Rightarrow> Inr (x # xs)))"

text \<open>The query of \<open>/route\<close>.\<close>

record route_request =
  source_arg :: "string option"
  target_arg :: "string option"
  mode_arg :: "string option"
  k_arg :: "int parsed option"

text \<open>The block under \<open>if mode in ("both", "penalized")\<close>.\<close>

definition route_penalized ::
  "node \<Rightarrow> node \<Rightarrow> int \<Rightarrow> route_out \<Rightarrow> state \<Rightarrow> (py_error + route_out) \<times> state" where
  "route_penalized source target k out st =
     (case astar_with_congestion st source target of
        Inl e \<Rightarrow> (Inl e, st)
      | Inr best_path \<Rightarrow>
          (case build_penalized_graph st of
             (Gp, st') \<Rightarrow>
               (case k_shortest_paths (graph_edges (heap st') Gp) source target
                       (weight_attr ''pen_weight'') k of
                  Inl e \<Rightarrow> (Inl e, st')
                | Inr alt_paths \<Rightarrow>
                    (case route_entry st' best_path of
                       Inl e \<Rightarrow> (Inl e, st')
                     | Inr b \<Rightarrow>
                         (case route_entries st' alt_paths of
                            Inl e \<Rightarrow> (Inl e, st')
                          | Inr alts \<Rightarrow>
                              (Inr (out\<lparr>best := Some b, best_alts := Some alts\<rparr>), st'))))))"

text \<open>The block under \<open>if mode in ("both", "distance")\<close>.\<close>

definition route_distance ::
  "node \<Rightarrow> node \<Rightarrow> int \<Rightarrow> route_out \<Rightarrow> state \<Rightarrow> (py_error + route_out) \<times> state" where
  "route_distance source target k out st =
     (case astar_distance_only st source target of
        Inl e \<Rightarrow> (Inl e, st)
      | Inr shortest_path \<Rightarrow>
          (case k_shortest_paths (graph_edges (heap st) (GRAPH st)) source target
                  (weight_attr ''weight'') k of
             Inl e \<Rightarrow> (Inl e, st)
           | Inr alt_d \<Rightarrow>
               (case route_entry st shortest_path of
                  Inl e \<Rightarrow> (Inl e, st)
                | Inr s \<Rightarrow>
                    (case route_entries st alt_d of
                       Inl e \<Rightarrow> (Inl e, st)
                     | Inr alts \<Rightarrow>
                         (Inr (out\<lparr>shortest := Some s, shortest_alts := Some alts\<rparr>), st)))))"

text \<open>The body of the \<open>try\<close> statement.\<close>

definition route_search ::
  "string \<Rightarrow> node \<Rightarrow> node \<Rightarrow> int \<Rightarrow> state \<Rightarrow> (py_error + route_out) \<times> state" where
  "route_search mode source target k st =
     (let out = \<lparr>best = None, best_alts = None, shortest = None, shortest_alts = None\<rparr> in
      case (if mode \<in> {''both'', ''penalized''} then route_penalized source target k out st
            else (Inr out, st)) of
        (Inl e, st') \<Rightarrow> (Inl e, st')
      | (Inr out', st') \<Rightarrow>
          (if mode \<in> {''both'', ''distance''} then route_distance source target k out' st'
           else (Inr out', st')))"

text \<open>
  What follows the \<open>try\<close> statement: \<open>NetworkXNoPath\<close> is caught and answered with
  404, any other exception leaves the view, and an empty \<open>out\<close> is answered with 404.
\<close>

definition route_response :: "py_error + route_out \<Rightarrow> route_out response" where
  "route_response r =
     (case r of
        Inl e \<Rightarrow> (if e = NetworkXNoPath then Err 404 ''no path'' else Crash e)
      | Inr out \<Rightarrow>
          if out = \<lparr>best = None, best_alts = None, shortest = None, shortest_alts = None\<rparr>
          then Err 404 ''no path''
          else Ok out)"

definition route :: "route_request \<Rightarrow> state \<Rightarrow> route_out response \<times> state" where
  "route req st =
     (let mode = (case mode_arg req of None \<Rightarrow> ''both'' | Some m \<Rightarrow> m) in
      case arg_or (k_arg req) 3 of
        Unparsable \<Rightarrow> (Crash ValueError, st)
      | Parsed k \<Rightarrow>
          (case (source_arg req, target_arg req) of
             (Some source, Some target) \<Rightarrow>
               if source = [] \<or> target = [] then
                 (Err 400 ''source and target are required'', st)
               else if \<not> in_graph source (GRAPH st) \<or> \<not> in_graph target (GRAPH st) then
                 (Err 400 ''invalid source/target'', st)
               else if forecast_map st = None \<or> forecast_map st = Some [] then
                 (Err 400 ''forecast not loaded; call /forecast first'', st)
               else
                 (case route_search mode source target k st of
                    (r, st') \<Rightarrow> (route_response r, st'))
           | _ \<Rightarrow> (Err 400 ''source and target are required'', st)))"

section \<open>Frame conditions and invariants\<close>

text \<open>
  Every attribute dictionary that \<open>GRAPH\<close> refers to has been allocated: its address is
  below \<open>next_addr\<close>. Python has no dangling references, so every state of the running
  process satisfies this.
\<close>

definition wf_state :: "state \<Rightarrow> bool" where
  "wf_state st = list_all (\<lambda>(u, v, a). a < next_addr st) (edges (GRAPH st))"

text \<open>An attribute dictionary after the loop body of \<open>build_penalized_graph\<close>.\<close>

definition penalized :: "forecast_dict option \<Rightarrow> edge_data \<Rightarrow> edge_data" where
  "penalized fm data =
     data\<lparr>pen_weight := Some (length_m data * (1 + congestion_penalty fm (id_attr data)))\<rparr>"

text \<open>
  \<open>frame st st'\<close>: the process-wide state of \<open>st\<close> is intact in \<open>st'\<close>. The graph, the
  cache and the active forecast are the same, and every dictionary allocated in \<open>st\<close>
  has the same contents; \<open>st'\<close> may hold further, newly allocated dictionaries.
\<close>

definition frame :: "state \<Rightarrow> state \<Rightarrow> bool" where
  "frame st st' =
     (GRAPH st' = GRAPH st \<and> FORECAST_CACHE st' = FORECAST_CACHE st
      \<and> forecast_map st' = forecast_map st \<and> next_addr st \<le> next_addr st'
      \<and> (\<forall>a < next_addr st. heap st' a = heap st a))"

text \<open>What a request can observe of the state.\<close>

definition visible ::
  "state \<Rightarrow> (node \<times> node_data option) list \<times> (node \<times> node \<times> edge_data) list
     \<times> forecast_dict option" where
  "visible st = (nodes (GRAPH st), graph_edges (heap st) (GRAPH st), forecast_map st)"

text \<open>
  A table covers the graph: entry by entry it has the identifier and the capacity of the
  corresponding edge, so there is exactly one entry per edge.
\<close>

definition covers :: "(node \<times> node \<times> edge_data) list \<Rightarrow> forecast_table \<Rightarrow> bool" where
  "covers es t = (map (\<lambda>r. (edge_id r, f_capacity r)) t
                    = map (\<lambda>(u, v, d). (id_attr d, capacity d)) es)"

text \<open>Every cached table covers the graph and is not empty; so does the active one.\<close>

definition cache_ok :: "state \<Rightarrow> bool" where
  "cache_ok st = (\<forall>key t. FORECAST_CACHE st key = Some t \<longrightarrow>
                    covers (graph_edges (heap st) (GRAPH st)) t \<and> t \<noteq> [])"

definition active_ok :: "state \<Rightarrow> bool" where
  "active_ok st = (\<forall>d. forecast_map st = Some d \<longrightarrow>
                     (\<exists>t. d = by_edge_id t \<and> covers (graph_edges (heap st) (GRAPH st)) t
                          \<and> t \<noteq> []))"

text \<open>
  The states of a running process: the state after start-up (\<open>FORECAST_CACHE = {}\<close>, no
  attribute \<open>forecast_map\<close>), and the state after a forecast or a route request.
\<close>

inductive reachable :: "(real list list \<Rightarrow> real list) \<Rightarrow> state \<Rightarrow> bool"
  for M :: "real list list \<Rightarrow> real list" where
  start: "wf_state st \<Longrightarrow> FORECAST_CACHE st = (\<lambda>key. None) \<Longrightarrow> forecast_map st = None
            \<Longrightarrow> reachable M st"
| after_forecast: "reachable M st \<Longrightarrow> forecast M req st = (r, st') \<Longrightarrow> reachable M st'"
| after_route: "reachable M st \<Longrightarrow> route req' st = (r', st') \<Longrightarrow> reachable M st'"

text \<open>The condition the route view tests before it searches: \<open>forecast_map\<close> is set and not empty.\<close>

definition forecast_loaded :: "state \<Rightarrow> bool" where
  "forecast_loaded st = (forecast_map st \<noteq> None \<and> forecast_map st \<noteq> Some [])"

text \<open>The response entry for the path that consists of one node.\<close>

definition single_node_item :: "node \<Rightarrow> node_data \<Rightarrow> route_item" where
  "single_node_item X d =
     \<lparr>path = [X], len_m = 0,
      coords = [\<lparr>c_id = X, c_lat = lat d, c_lon = lon d, c_label = label d\<rparr>]\<rparr>"

text \<open>
  Paths of the undirected graph. \<open>is_walk es p\<close>: the node list \<open>p\<close> is not empty and
  consecutive nodes are joined by an edge; \<open>walk es s p t\<close>: it leads from \<open>s\<close> to \<open>t\<close>.
  A simple path is a walk without repeated nodes.
\<close>

fun is_walk :: "(node \<times> node \<times> 'd) list \<Rightarrow> node list \<Rightarrow> bool" where
  "is_walk es [] = False"
| "is_walk es [u] = True"
| "is_walk es (u # v # rest) = (get_edge_data es u v \<noteq> None \<and> is_walk es (v # rest))"

definition walk :: "(node \<times> node \<times> 'd) list \<Rightarrow> node \<Rightarrow> node list \<Rightarrow> node \<Rightarrow> bool" where
  "walk es s p t = (is_walk es p \<and> hd p = s \<and> last p = t)"

text \<open>
  A NetworkX \<open>Graph\<close> holds one edge per pair of nodes: looking an edge's endpoints up
  gives that edge's data. A cost function is non-negative when it is so on every edge, in
  both directions.
\<close>

definition simple_graph :: "(node \<times> node \<times> 'd) list \<Rightarrow> bool" where
  "simple_graph es = list_all (\<lambda>(a, b, d). get_edge_data es a b = Some d) es"

definition nonneg_cost :: "(node \<times> node \<times> 'd) list \<Rightarrow> (node \<Rightarrow> node \<Rightarrow> 'd \<Rightarrow> real) \<Rightarrow> bool" where
  "nonneg_cost es cost = list_all (\<lambda>(a, b, d). 0 \<le> cost a b d \<and> 0 \<le> cost b a d) es"

text \<open>The cost of the step from \<open>u\<close> to \<open>v\<close>, as \<open>path_cost\<close> adds it up.\<close>

definition edge_cost ::
  "(node \<times> node \<times> 'd) list \<Rightarrow> (node \<Rightarrow> node \<Rightarrow> 'd \<Rightarrow> real) \<Rightarrow> node \<Rightarrow> node \<Rightarrow> real" where
  "edge_cost es cost u v = (case get_edge_data es u v of None \<Rightarrow> 0 | Some d \<Rightarrow> cost u v d)"

text \<open>
  Invariants of the search loop. Every queue entry is a simple path from the source whose
  earlier nodes are explored.
\<close>

definition inv_valid ::
  "(node \<times> node \<times> 'd) list \<Rightarrow> node \<Rightarrow> queue_entry list \<Rightarrow> node list \<Rightarrow> bool" where
  "inv_valid es s queue explored =
     (\<forall>(f, g, u, ps) \<in> set queue.
        walk es s (rev (u # ps)) u \<and> distinct (u # ps) \<and> set ps \<subseteq> set explored)"

text \<open>
  The source is explored or queued, and every neighbour of an explored node is explored
  or queued.
\<close>

definition inv_front ::
  "(node \<times> node \<times> 'd) list \<Rightarrow> node \<Rightarrow> queue_entry list \<Rightarrow> node list \<Rightarrow> bool" where
  "inv_front es s queue explored =
     ((s \<in> set explored \<or> (\<exists>f g ps. (f, g, s, ps) \<in> set queue))
      \<and> (\<forall>x v d. x \<in> set explored \<longrightarrow> (v, d) \<in> set (neighbors es x) \<longrightarrow>
            v \<in> set explored \<or> (\<exists>f g ps. (f, g, v, ps) \<in> set queue)))"

text \<open>
  With the zero heuristic the priority of an entry is the cost of its path. Every explored
  node \<open>x\<close> has a distance \<open>dst x\<close>: the cost of some path from the source, and at most
  the cost of every path; each unexplored neighbour is queued at no more than \<open>dst x\<close>
  plus the edge.
\<close>

definition inv_opt ::
  "(node \<times> node \<times> 'd) list \<Rightarrow> (node \<Rightarrow> node \<Rightarrow> 'd \<Rightarrow> real) \<Rightarrow> node \<Rightarrow> queue_entry list
     \<Rightarrow> node list \<Rightarrow> (node \<Rightarrow> real) \<Rightarrow> bool" where
  "inv_opt es c s queue explored dst =
     ((\<forall>f g u ps. (f, g, u, ps) \<in> set queue \<longrightarrow>
         f = g \<and> g = path_cost es c (rev (u # ps)))
      \<and> (s \<in> set explored \<or> (\<exists>f ps. (f, 0, s, ps) \<in> set queue))
      \<and> (\<forall>x. x \<in> set explored \<longrightarrow>
            (\<exists>W. walk es s W x \<and> path_cost es c W = dst x)
            \<and> (\<forall>P. walk es s P x \<longrightarrow> dst x \<le> path_cost es c P)
            \<and> (\<forall>v d. (v, d) \<in> set (neighbors es x) \<longrightarrow>
                  v \<in> set explored
                  \<or> (\<exists>f g ps. (f, g, v, ps) \<in> set queue \<and> g \<le> dst x + c x v d))))"

text \<open>
  Invariants of the enumeration of alternatives. \<open>kept\<close>: the step between two nodes
  survives the restriction of \<open>without_ignored\<close>.
\<close>

definition kept :: "node list \<Rightarrow> (node \<times> node) list \<Rightarrow> node \<Rightarrow> node \<Rightarrow> bool" where
  "kept ignore_nodes ignore_edges a b =
     (a \<notin> set ignore_nodes \<and> b \<notin> set ignore_nodes
      \<and> (a, b) \<notin> set ignore_edges \<and> (b, a) \<notin> set ignore_edges)"

text \<open>All steps of a path are kept in the restricted graph.\<close>

fun steps_kept :: "node list \<Rightarrow> (node \<times> node) list \<Rightarrow> node list \<Rightarrow> bool" where
  "steps_kept ns ies (u # v # rest) = (kept ns ies u v \<and> steps_kept ns ies (v # rest))"
| "steps_kept ns ies p = True"

text \<open>A simple path from \<open>s\<close> to \<open>t\<close>.\<close>

definition simple_path :: "(node \<times> node \<times> 'd) list \<Rightarrow> node \<Rightarrow> node list \<Rightarrow> node \<Rightarrow> bool" where
  "simple_path es s p t = (walk es s p t \<and> distinct p)"

text \<open>
  The accepted paths and the queued candidates are simple paths from source to target,
  every candidate is queued under its cost and has not been accepted, and neither list
  holds a path twice.
\<close>

definition buf_ok ::
  "(node \<times> node \<times> 'd) list \<Rightarrow> node \<Rightarrow> node \<Rightarrow> (node \<Rightarrow> node \<Rightarrow> 'd \<Rightarrow> real) \<Rightarrow> node list list
     \<Rightarrow> (real \<times> node list) list \<Rightarrow> bool" where
  "buf_ok es s t cost A B =
     ((\<forall>p \<in> set A. simple_path es s p t)
      \<and> (\<forall>c p. (c, p) \<in> set B \<longrightarrow>
            simple_path es s p t \<and> c = path_cost es cost p \<and> p \<notin> set A)
      \<and> distinct A \<and> distinct (map snd B))"

text \<open>
  The state of the generator: before the first step both lists are empty; afterwards the
  previous path is the path accepted last.
\<close>

definition gen_ok ::
  "(node \<times> node \<times> 'd) list \<Rightarrow> node \<Rightarrow> node \<Rightarrow> (node \<Rightarrow> node \<Rightarrow> 'd \<Rightarrow> real) \<Rightarrow> gen \<Rightarrow> bool" where
  "gen_ok es s t cost g =
     (buf_ok es s t cost (listA g) (listB g)
      \<and> (case prev_path g of
            None \<Rightarrow> listA g = [] \<and> listB g = []
          | Some p \<Rightarrow> listA g \<noteq> [] \<and> p = last (listA g)))"

text \<open>
  Every node of the graph carries its attributes, and the endpoints of every edge are
  nodes of the graph: the network that \<open>load_graph\<close> builds when \<open>nodes.csv\<close> lists the
  endpoints of all edges.
\<close>

definition attributed :: "graph \<Rightarrow> bool" where
  "attributed g =
     (list_all (\<lambda>(n, d). d \<noteq> None) (nodes g)
      \<and> list_all (\<lambda>(u, v, a). in_graph u g \<and> in_graph v g) (edges g))"

section \<open>A concrete network\<close>

text \<open>
  The scenario of the specification: nodes A, B and C, an edge A-B and an edge B-C, both
  100 m long with capacity 400; the process right after start-up (empty cache, no active
  forecast); a predictor that answers 350 for every row; and the state after one
  forecast request without parameters.
\<close>

definition abc_edge :: "string \<Rightarrow> edge_data" where
  "abc_edge i = \<lparr>id_attr = i, length_m = 100, capacity = 400, kind = ''path'', weight = 100,
                 pen_weight = None\<rparr>"

definition abc_graph :: graph where
  "abc_graph =
     \<lparr>nodes = [(''A'', Some \<lparr>lat = 0, lon = 0, label = ''Node A''\<rparr>),
               (''B'', Some \<lparr>lat = 0, lon = 1, label = ''Node B''\<rparr>),
               (''C'', Some \<lparr>lat = 0, lon = 2, label = ''Node C''\<rparr>)],
      edges = [(''A'', ''B'', 0), (''B'', ''C'', 1)]\<rparr>"

definition abc_start :: state where
  "abc_start =
     \<lparr>heap = (\<lambda>a. if a = 0 then abc_edge ''e1'' else abc_edge ''e2''), next_addr = 2,
      GRAPH = abc_graph, FORECAST_CACHE = (\<lambda>key. None), forecast_map = None\<rparr>"

definition predict_350 :: "real list list \<Rightarrow> real list" where
  "predict_350 X = map (\<lambda>row. 350) X"

definition abc_table :: forecast_table where
  "abc_table = [\<lparr>edge_id = ''e1'', pred_flow = 350, f_capacity = 400\<rparr>,
                \<lparr>edge_id = ''e2'', pred_flow = 350, f_capacity = 400\<rparr>]"

definition no_args :: forecast_request where
  "no_args = \<lparr>hour_arg = None, day_of_week_arg = None, is_peak_arg = None,
              use_cache_arg = None\<rparr>"

definition abc_loaded :: state where
  "abc_loaded = abc_start\<lparr>FORECAST_CACHE := (FORECAST_CACHE abc_start)((9, 1, 1) \<mapsto> abc_table),
                          forecast_map := Some (by_edge_id abc_table)\<rparr>"

definition abc_request :: "string \<Rightarrow> string \<Rightarrow> string \<Rightarrow> int \<Rightarrow> route_request" where
  "abc_request source target mode k =
     \<lparr>source_arg = Some source, target_arg = Some target, mode_arg = Some mode,
      k_arg = Some (Parsed k)\<rparr>"

text \<open>The edges of the concrete network with their data.\<close>

definition abc_edges :: "(node \<times> node \<times> edge_data) list" where
  "abc_edges = graph_edges (heap abc_start) (GRAPH abc_start)"

text \<open>
  The same network with an edge C-E whose endpoint E is not among the listed nodes, so
  that \<open>add_edge\<close> created E without attributes; at start-up, and after one forecast
  request without parameters.
\<close>

definition abc_bare_start :: state where
  "abc_bare_start =
     \<lparr>heap = (\<lambda>a. if a = 0 then abc_edge ''e1'' else if a = 1 then abc_edge ''e2''
                   else abc_edge ''e3''),
      next_addr = 3,
      GRAPH = \<lparr>nodes = nodes abc_graph @ [(''E'', None)],
               edges = edges abc_graph @ [(''C'', ''E'', 2)]\<rparr>,
      FORECAST_CACHE = (\<lambda>key. None), forecast_map = None\<rparr>"

definition abc_bare :: state where
  "abc_bare = snd (forecast predict_350 no_args abc_bare_start)"





section \<open>Properties of the congestion model\<close>

text \<open>
  C3. For every edge identifier the penalty is one of 0.0, 0.3 and 0.7. It is 0.0 when
  there is no active forecast or the edge is absent from it; otherwise, with
  ratio = predicted flow / max(capacity, 1), it is 0.0 below 0.5, 0.3 from 0.5 up to
  (not including) 0.8, and 0.7 from 0.8 on.
\<close>

theorem congestion_penalty_tiers:
  "congestion_penalty fm e \<in> {0, 0.3, 0.7}
   \<and> (fm = None \<longrightarrow> congestion_penalty fm e = 0)
   \<and> (\<forall>d. fm = Some d \<and> dict_get d e = None \<longrightarrow> congestion_penalty fm e = 0)
   \<and> (\<forall>d f. fm = Some d \<and> dict_get d e = Some f \<longrightarrow>
         (let ratio = pred_flow f / max (f_capacity f) 1 in
            (ratio < 0.5 \<longrightarrow> congestion_penalty fm e = 0)
          \<and> (0.5 \<le> ratio \<and> ratio < 0.8 \<longrightarrow> congestion_penalty fm e = 0.3)
          \<and> (0.8 \<le> ratio \<longrightarrow> congestion_penalty fm e = 0.7)))"
proof -
  have none: "fm = None \<Longrightarrow> congestion_penalty fm e = 0"
    by (simp add: congestion_penalty_def dict_get_def)
  have absent: "congestion_penalty fm e = 0" if "fm = Some d" "dict_get d e = None" for d
    using that by (simp add: congestion_penalty_def)
  have present:
    "congestion_penalty fm e = (if r < 0.5 then 0 else if r < 0.8 then 0.3 else 0.7)"
    if "fm = Some d" "dict_get d e = Some f" "r = pred_flow f / max (f_capacity f) 1"
    for d f r
    using that by (simp only: congestion_penalty_def Let_def option.case)
  have range: "congestion_penalty fm e \<in> {0, 0.3, 0.7}"
  proof (cases fm)
    case None
    then show ?thesis using none by simp
  next
    case (Some d)
    show ?thesis
    proof (cases "dict_get d e")
      case None
      then show ?thesis using absent [OF Some] by simp
    next
      case (Some f)
      show ?thesis
        using present [OF \<open>fm = Some d\<close> Some refl] by simp
    qed
  qed
  have tiers: "(r < 0.5 \<longrightarrow> congestion_penalty fm e = 0)
          \<and> (0.5 \<le> r \<and> r < 0.8 \<longrightarrow> congestion_penalty fm e = 0.3)
          \<and> (0.8 \<le> r \<longrightarrow> congestion_penalty fm e = 0.7)"
    if "fm = Some d" "dict_get d e = Some f" "r = pred_flow f / max (f_capacity f) 1"
    for d f r
    unfolding present [OF that] by auto
  show ?thesis
    using none absent range tiers unfolding Let_def by blast
qed

theorem congestion_penalty_tiers_witness:
  "congestion_penalty None ''e1'' = 0
   \<and> congestion_penalty
        (Some [(''e1'', \<lparr>edge_id = ''e1'', pred_flow = 350, f_capacity = 400\<rparr>)]) ''e2'' = 0
   \<and> congestion_penalty
        (Some [(''e1'', \<lparr>edge_id = ''e1'', pred_flow = 350, f_capacity = 400\<rparr>)]) ''e1'' = 0.7
   \<and> congestion_penalty
        (Some [(''e1'', \<lparr>edge_id = ''e1'', pred_flow = 240, f_capacity = 400\<rparr>)]) ''e1'' = 0.3
   \<and> congestion_penalty
        (Some [(''e1'', \<lparr>edge_id = ''e1'', pred_flow = 100, f_capacity = 400\<rparr>)]) ''e1'' = 0"
  using congestion_penalty_tiers [of None "''e1''"]
    congestion_penalty_tiers
      [of "Some [(''e1'', \<lparr>edge_id = ''e1'', pred_flow = 350, f_capacity = 400\<rparr>)]" "''e2''"]
    congestion_penalty_tiers
      [of "Some [(''e1'', \<lparr>edge_id = ''e1'', pred_flow = 350, f_capacity = 400\<rparr>)]" "''e1''"]
    congestion_penalty_tiers
      [of "Some [(''e1'', \<lparr>edge_id = ''e1'', pred_flow = 240, f_capacity = 400\<rparr>)]" "''e1''"]
    congestion_penalty_tiers
      [of "Some [(''e1'', \<lparr>edge_id = ''e1'', pred_flow = 100, f_capacity = 400\<rparr>)]" "''e1''"]
  by (simp add: dict_get_def Let_def)

section \<open>Properties of the forecast cache\<close>

lemma forecast_hit:
  assumes "arg_or (hour_arg req) 9 = Parsed h" "arg_or (day_of_week_arg req) 1 = Parsed d"
    "arg_or (is_peak_arg req) 1 = Parsed p" "use_cache req"
    "FORECAST_CACHE st (h, d, p) = Some t"
  shows "forecast M req st = (Ok t, st\<lparr>forecast_map := Some (by_edge_id t)\<rparr>)"
  using assms by (simp add: forecast_def)

lemma forecast_miss:
  assumes "arg_or (hour_arg req) 9 = Parsed h" "arg_or (day_of_week_arg req) 1 = Parsed d"
    "arg_or (is_peak_arg req) 1 = Parsed p"
    "\<not> use_cache req \<or> FORECAST_CACHE st (h, d, p) = None"
  shows "forecast M req st =
     (case predict_forecast M (graph_edges (heap st) (GRAPH st)) h d p of
        Inl e \<Rightarrow> (Crash e, st)
      | Inr t \<Rightarrow> (Ok t, st\<lparr>FORECAST_CACHE := (FORECAST_CACHE st)((h, d, p) \<mapsto> t),
                           forecast_map := Some (by_edge_id t)\<rparr>))"
  using assms by (auto simp add: forecast_def)

lemma forecast_unparsable:
  assumes "arg_or (hour_arg req) 9 = Unparsable \<or> arg_or (day_of_week_arg req) 1 = Unparsable
    \<or> arg_or (is_peak_arg req) 1 = Unparsable"
  shows "forecast M req st = (Err 400 ''invalid hour/day_of_week/is_peak'', st)"
  using assms by (auto simp add: forecast_def split: parsed.splits)

lemma forecast_Ok_cases:
  assumes "forecast M req st = (Ok t, st')"
  obtains h d p where "arg_or (hour_arg req) 9 = Parsed h"
    "arg_or (day_of_week_arg req) 1 = Parsed d" "arg_or (is_peak_arg req) 1 = Parsed p"
    "use_cache req" "FORECAST_CACHE st (h, d, p) = Some t"
    "st' = st\<lparr>forecast_map := Some (by_edge_id t)\<rparr>"
  | h d p where "arg_or (hour_arg req) 9 = Parsed h"
    "arg_or (day_of_week_arg req) 1 = Parsed d" "arg_or (is_peak_arg req) 1 = Parsed p"
    "\<not> use_cache req \<or> FORECAST_CACHE st (h, d, p) = None"
    "predict_forecast M (graph_edges (heap st) (GRAPH st)) h d p = Inr t"
    "st' = st\<lparr>FORECAST_CACHE := (FORECAST_CACHE st)((h, d, p) \<mapsto> t),
              forecast_map := Some (by_edge_id t)\<rparr>"
proof (cases "arg_or (hour_arg req) 9")
  case Unparsable
  then show ?thesis using assms forecast_unparsable [of req M st] by simp
next
  case h: (Parsed h)
  show ?thesis
  proof (cases "arg_or (day_of_week_arg req) 1")
    case Unparsable
    then show ?thesis using assms forecast_unparsable [of req M st] by simp
  next
    case d: (Parsed d)
    show ?thesis
    proof (cases "arg_or (is_peak_arg req) 1")
      case Unparsable
      then show ?thesis using assms forecast_unparsable [of req M st] by simp
    next
      case p: (Parsed p)
      show ?thesis
      proof (cases "use_cache req \<and> FORECAST_CACHE st (h, d, p) \<noteq> None")
        case True
        then obtain t0 where t0: "FORECAST_CACHE st (h, d, p) = Some t0" by auto
        from forecast_hit [OF h d p _ t0, of M] True assms
        have "t0 = t" "st' = st\<lparr>forecast_map := Some (by_edge_id t0)\<rparr>" by simp_all
        then show ?thesis using that(1) [OF h d p _ _ _] True t0 by simp
      next
        case False
        then have c: "\<not> use_cache req \<or> FORECAST_CACHE st (h, d, p) = None" by simp
        from forecast_miss [OF h d p c, of M] assms
        have "predict_forecast M (graph_edges (heap st) (GRAPH st)) h d p = Inr t
              \<and> st' = st\<lparr>FORECAST_CACHE := (FORECAST_CACHE st)((h, d, p) \<mapsto> t),
                          forecast_map := Some (by_edge_id t)\<rparr>"
          by (auto split: sum.splits)
        then show ?thesis using that(2) [OF h d p c] by simp
      qed
    qed
  qed
qed

text \<open>
  C7. A request whose key (hour, day_of_week, is_peak) is stored, with the cache not
  bypassed, gets the stored table whatever the predictor is (it is not consulted) and the
  cache stays as it is; otherwise the table is computed and stored under the key,
  replacing what was there. In both cases the active forecast becomes the returned table.
\<close>

theorem forecast_cache_behaviour:
  assumes "arg_or (hour_arg req) 9 = Parsed h" "arg_or (day_of_week_arg req) 1 = Parsed d"
    "arg_or (is_peak_arg req) 1 = Parsed p"
  shows "(use_cache req \<and> FORECAST_CACHE st (h, d, p) = Some t \<longrightarrow>
            (\<forall>M'. forecast M' req st = (Ok t, st\<lparr>forecast_map := Some (by_edge_id t)\<rparr>)))
       \<and> ((\<not> use_cache req \<or> FORECAST_CACHE st (h, d, p) = None)
            \<and> predict_forecast M (graph_edges (heap st) (GRAPH st)) h d p = Inr t \<longrightarrow>
            forecast M req st =
              (Ok t, st\<lparr>FORECAST_CACHE := (FORECAST_CACHE st)((h, d, p) \<mapsto> t),
                        forecast_map := Some (by_edge_id t)\<rparr>))
       \<and> (\<forall>t' st'. forecast M req st = (Ok t', st') \<longrightarrow>
            forecast_map st' = Some (by_edge_id t'))"
proof (intro conjI impI allI)
  fix M'
  assume "use_cache req \<and> FORECAST_CACHE st (h, d, p) = Some t"
  then show "forecast M' req st = (Ok t, st\<lparr>forecast_map := Some (by_edge_id t)\<rparr>)"
    using forecast_hit [OF assms] by simp
next
  assume a: "(\<not> use_cache req \<or> FORECAST_CACHE st (h, d, p) = None)
            \<and> predict_forecast M (graph_edges (heap st) (GRAPH st)) h d p = Inr t"
  then show "forecast M req st =
              (Ok t, st\<lparr>FORECAST_CACHE := (FORECAST_CACHE st)((h, d, p) \<mapsto> t),
                        forecast_map := Some (by_edge_id t)\<rparr>)"
    using forecast_miss [OF assms, of st M] by simp
next
  fix t' st'
  assume "forecast M req st = (Ok t', st')"
  then show "forecast_map st' = Some (by_edge_id t')"
    by (rule forecast_Ok_cases) simp_all
qed

lemma abc_predict:
  "predict_forecast predict_350 (graph_edges (heap abc_start) (GRAPH abc_start)) 9 1 1
     = Inr abc_table"
  by (simp add: predict_forecast_def graph_edges_def abc_start_def abc_graph_def abc_edge_def
      predict_350_def abc_table_def)

lemma abc_forecast: "forecast predict_350 no_args abc_start = (Ok abc_table, abc_loaded)"
proof -
  have args: "arg_or (hour_arg no_args) 9 = Parsed 9"
    "arg_or (day_of_week_arg no_args) 1 = Parsed 1" "arg_or (is_peak_arg no_args) 1 = Parsed 1"
    by (simp_all add: arg_or_def no_args_def)
  have "\<not> use_cache no_args \<or> FORECAST_CACHE abc_start (9, 1, 1) = None"
    by (simp add: abc_start_def)
  from forecast_miss [OF args this, of predict_350] show ?thesis
    by (simp add: abc_predict abc_loaded_def)
qed

theorem forecast_cache_behaviour_witness:
  "forecast predict_350 no_args abc_start = (Ok abc_table, abc_loaded)
   \<and> forecast (\<lambda>X. []) no_args abc_loaded = (Ok abc_table, abc_loaded)
   \<and> forecast_map abc_loaded = Some (by_edge_id abc_table)"
proof -
  have args: "arg_or (hour_arg no_args) 9 = Parsed 9"
    "arg_or (day_of_week_arg no_args) 1 = Parsed 1" "arg_or (is_peak_arg no_args) 1 = Parsed 1"
    by (simp_all add: arg_or_def no_args_def)
  have uc: "use_cache no_args"
    by (simp add: use_cache_def no_args_def lower_def)
  have miss: "FORECAST_CACHE abc_start (9, 1, 1) = None"
    by (simp add: abc_start_def)
  have hit: "FORECAST_CACHE abc_loaded (9, 1, 1) = Some abc_table"
    by (simp add: abc_loaded_def)
  have same: "abc_loaded\<lparr>forecast_map := Some (by_edge_id abc_table)\<rparr> = abc_loaded"
    by (simp add: abc_loaded_def)
  show ?thesis
    using forecast_cache_behaviour [OF args, of abc_start abc_table predict_350]
      forecast_cache_behaviour [OF args, of abc_loaded abc_table predict_350]
      uc miss hit abc_predict same
    by (simp add: abc_loaded_def)
qed

section \<open>Routing leaves the process state alone\<close>

lemma frame_refl: "frame st st"
  by (simp add: frame_def)

lemma frame_trans: "frame st st' \<Longrightarrow> frame st' st'' \<Longrightarrow> frame st st''"
  by (auto simp: frame_def)

lemma frame_view:
  assumes "wf_state st" "frame st st'"
  shows "graph_edges (heap st') (GRAPH st') = graph_edges (heap st) (GRAPH st)"
    and "wf_state st'"
  using assms by (auto simp: wf_state_def frame_def graph_edges_def list_all_iff)

lemma copy_edges_props:
  "copy_edges h n es = (h', n', es') \<Longrightarrow>
     n' = n + length es
     \<and> (\<forall>a < n. h' a = h a)
     \<and> map (\<lambda>(u, v, a). (u, v)) es' = map (\<lambda>(u, v, a). (u, v)) es
     \<and> map (\<lambda>(u, v, a). a) es' = [n ..< n + length es]
     \<and> ((\<forall>(u, v, a) \<in> set es. a < n) \<longrightarrow>
           map (\<lambda>(u, v, a). h' a) es' = map (\<lambda>(u, v, a). h a) es)"
proof (induction es arbitrary: h n h' n' es')
  case Nil
  then show ?case by simp
next
  case (Cons e es)
  obtain u v a where e: "e = (u, v, a)" by (cases e)
  from Cons.prems obtain es1 where
    r: "copy_edges (h(n := h a)) (Suc n) es = (h', n', es1)"
    and es': "es' = (u, v, n) # es1"
    using e by (auto split: prod.splits)
  note ih = Cons.IH [OF r]
  have n': "n' = n + length (e # es)"
    using ih by simp
  have below: "\<forall>b < n. h' b = h b"
    using ih by simp
  have pairs: "map (\<lambda>(u, v, a). (u, v)) es' = map (\<lambda>(u, v, a). (u, v)) (e # es)"
    using ih es' e by simp
  have "[n ..< n + length (e # es)] = n # [Suc n ..< Suc n + length es]"
    by (simp add: upt_conv_Cons del: upt_Suc)
  then have addrs: "map (\<lambda>(u, v, a). a) es' = [n ..< n + length (e # es)]"
    using ih es' by simp
  have vals: "map (\<lambda>(u, v, a). h' a) es' = map (\<lambda>(u, v, a). h a) (e # es)"
    if old: "\<forall>(u, v, a) \<in> set (e # es). a < n"
  proof -
    have "\<forall>(u, v, b) \<in> set es. b < Suc n"
      using old by auto
    then have "map (\<lambda>(u, v, a). h' a) es1 = map (\<lambda>(u, v, b). (h(n := h a)) b) es"
      using ih by blast
    also have "\<dots> = map (\<lambda>(u, v, b). h b) es"
      using old by auto
    finally have tl: "map (\<lambda>(u, v, a). h' a) es1 = map (\<lambda>(u, v, b). h b) es" .
    have "h' n = h a"
      using ih by simp
    then show ?thesis using tl es' e by simp
  qed
  show ?case using n' below pairs addrs vals by blast
qed

lemma penalized_idem: "penalized fm (penalized fm d) = penalized fm d"
  by (simp add: penalized_def)

lemma fold_set_pen_weight:
  "fold (set_pen_weight fm) es h a =
     (if a \<in> (\<lambda>(u, v, a). a) ` set es then penalized fm (h a) else h a)"
proof (induction es arbitrary: h)
  case Nil
  show ?case by simp
next
  case (Cons e es)
  obtain u v b where e: "e = (u, v, b)" by (cases e)
  have step: "set_pen_weight fm e h = h(b := penalized fm (h b))"
    by (simp add: set_pen_weight_def e penalized_def Let_def)
  show ?case
    unfolding fold_simps Cons.IH step
    by (auto simp: e penalized_idem)
qed

lemma map_combine:
  assumes "map f xs = map f' ys" "map g xs = map g' ys"
  shows "map (\<lambda>x. F (f x) (g x)) xs = map (\<lambda>y. F (f' y) (g' y)) ys"
proof (rule nth_equalityI)
  show len: "length (map (\<lambda>x. F (f x) (g x)) xs) = length (map (\<lambda>y. F (f' y) (g' y)) ys)"
    using map_eq_imp_length_eq [OF assms(1)] by simp
  fix i
  assume "i < length (map (\<lambda>x. F (f x) (g x)) xs)"
  then have i: "i < length xs" "i < length ys"
    using len by simp_all
  have "f (xs ! i) = f' (ys ! i)"
    using arg_cong [OF assms(1), of "\<lambda>l. l ! i"] i by simp
  moreover have "g (xs ! i) = g' (ys ! i)"
    using arg_cong [OF assms(2), of "\<lambda>l. l ! i"] i by simp
  ultimately show "map (\<lambda>x. F (f x) (g x)) xs ! i = map (\<lambda>y. F (f' y) (g' y)) ys ! i"
    using i by simp
qed

lemma build_penalized_graph_props:
  assumes "wf_state st" "build_penalized_graph st = (Gp, st')"
  shows "frame st st'"
    and "nodes Gp = nodes (GRAPH st)"
    and "graph_edges (heap st') Gp
           = map (\<lambda>(u, v, d). (u, v, penalized (forecast_map st) d))
               (graph_edges (heap st) (GRAPH st))"
proof -
  obtain h1 n1 es1 where c: "copy_edges (heap st) (next_addr st) (edges (GRAPH st)) = (h1, n1, es1)"
    by (metis prod_cases3)
  note p = copy_edges_props [OF c]
  have Gp: "Gp = (GRAPH st)\<lparr>edges := es1\<rparr>"
    and st': "st' = st\<lparr>heap := fold (set_pen_weight (forecast_map st)) es1 h1, next_addr := n1\<rparr>"
    using assms(2) c
    by (auto simp add: build_penalized_graph_def copy_def)
  have fresh: "\<forall>a \<in> (\<lambda>(u, v, a). a) ` set es1. next_addr st \<le> a"
  proof -
    have "(\<lambda>(u, v, a). a) ` set es1 = set (map (\<lambda>(u, v, a). a) es1)" by simp
    also have "\<dots> = set [next_addr st ..< next_addr st + length (edges (GRAPH st))]"
      using p by simp
    finally show ?thesis by auto
  qed
  show "frame st st'"
    using p fresh unfolding frame_def st' by (auto simp: fold_set_pen_weight)
  show "nodes Gp = nodes (GRAPH st)"
    by (simp add: Gp)
  have old: "\<forall>(u, v, a) \<in> set (edges (GRAPH st)). a < next_addr st"
    using assms(1) by (simp add: wf_state_def list_all_iff)
  have vals: "map (\<lambda>(u, v, a). h1 a) es1 = map (\<lambda>(u, v, a). heap st a) (edges (GRAPH st))"
    using p old by blast
  have pairs: "map (\<lambda>(u, v, a). (u, v)) es1 = map (\<lambda>(u, v, a). (u, v)) (edges (GRAPH st))"
    using p by blast
  have "graph_edges (heap st') Gp
          = map (\<lambda>(u, v, a). (u, v, penalized (forecast_map st) (h1 a))) es1"
    unfolding graph_edges_def Gp st' by (force simp: fold_set_pen_weight)
  also have "\<dots> = map (\<lambda>x. (\<lambda>(u, v) d. (u, v, penalized (forecast_map st) d))
                            ((\<lambda>(u, v, a). (u, v)) x) ((\<lambda>(u, v, a). h1 a) x)) es1"
    by (simp add: split_beta)
  also have "\<dots> = map (\<lambda>x. (\<lambda>(u, v) d. (u, v, penalized (forecast_map st) d))
                            ((\<lambda>(u, v, a). (u, v)) x) ((\<lambda>(u, v, a). heap st a) x))
                     (edges (GRAPH st))"
    by (rule map_combine [OF pairs vals])
  also have "\<dots> = map (\<lambda>(u, v, d). (u, v, penalized (forecast_map st) d))
               (graph_edges (heap st) (GRAPH st))"
    by (simp add: split_beta graph_edges_def)
  finally show "graph_edges (heap st') Gp
           = map (\<lambda>(u, v, d). (u, v, penalized (forecast_map st) d))
               (graph_edges (heap st) (GRAPH st))" .
qed

lemma frame_visible:
  assumes "wf_state st" "frame st st'"
  shows "visible st' = visible st"
  using frame_view(1) [OF assms] assms(2) by (simp add: visible_def frame_def)

lemma coords_of_nodes: "nodes g = nodes g' \<Longrightarrow> coords_of g p = coords_of g' p"
  by (induction p) (simp_all split: option.splits sum.splits)

lemma route_entry_visible:
  assumes "visible st1 = visible st2"
  shows "route_entry st1 p = route_entry st2 p"
proof -
  have "coords_of (GRAPH st1) p = coords_of (GRAPH st2) p"
    using assms by (intro coords_of_nodes) (simp add: visible_def)
  moreover have "path_length st1 p = path_length st2 p"
    using assms by (simp add: path_length_def visible_def)
  ultimately show ?thesis by (simp add: route_entry_def split: sum.splits)
qed

lemma route_entries_visible:
  assumes "visible st1 = visible st2"
  shows "route_entries st1 ps = route_entries st2 ps"
  by (induction ps) (simp_all add: route_entry_visible [OF assms] split: sum.splits)

lemma route_penalized_frame:
  assumes "wf_state st" "route_penalized s t k out st = (r, st')"
  shows "frame st st'"
proof (cases "astar_with_congestion st s t")
  case (Inl e)
  then show ?thesis using assms(2) by (simp add: route_penalized_def frame_refl)
next
  case (Inr b)
  obtain Gp st1 where bp: "build_penalized_graph st = (Gp, st1)"
    by (cases "build_penalized_graph st")
  have "st' = st1"
    using assms(2) Inr bp by (auto simp: route_penalized_def split: sum.splits)
  then show ?thesis using build_penalized_graph_props(1) [OF assms(1) bp] by simp
qed

lemma route_penalized_visible:
  assumes "wf_state st1" "wf_state st2" "visible st1 = visible st2"
  shows "fst (route_penalized s t k out st1) = fst (route_penalized s t k out st2)"
proof -
  have a: "astar_with_congestion st1 s t = astar_with_congestion st2 s t"
    using assms(3) by (simp add: astar_with_congestion_def visible_def)
  obtain Gp1 st1' where b1: "build_penalized_graph st1 = (Gp1, st1')"
    by (cases "build_penalized_graph st1")
  obtain Gp2 st2' where b2: "build_penalized_graph st2 = (Gp2, st2')"
    by (cases "build_penalized_graph st2")
  note p1 = build_penalized_graph_props [OF assms(1) b1]
  note p2 = build_penalized_graph_props [OF assms(2) b2]
  have v: "visible st1' = visible st2'"
    using frame_visible [OF assms(1) p1(1)] frame_visible [OF assms(2) p2(1)] assms(3)
    by simp
  have g: "graph_edges (heap st1') Gp1 = graph_edges (heap st2') Gp2"
    using p1(3) p2(3) assms(3) by (simp add: visible_def)
  show ?thesis
    by (simp add: route_penalized_def a b1 b2 g route_entry_visible [OF v]
        route_entries_visible [OF v] split: sum.splits)
qed

lemma route_distance_frame:
  assumes "route_distance s t k out st = (r, st')"
  shows "st' = st"
  using assms by (auto simp: route_distance_def split: sum.splits)

lemma route_distance_visible:
  assumes "visible st1 = visible st2"
  shows "fst (route_distance s t k out st1) = fst (route_distance s t k out st2)"
proof -
  have a: "astar_distance_only st1 s t = astar_distance_only st2 s t"
    using assms by (simp add: astar_distance_only_def visible_def)
  have g: "graph_edges (heap st1) (GRAPH st1) = graph_edges (heap st2) (GRAPH st2)"
    using assms by (simp add: visible_def)
  show ?thesis
    by (simp add: route_distance_def a g route_entry_visible [OF assms]
        route_entries_visible [OF assms] split: sum.splits)
qed

lemma route_search_frame:
  assumes "wf_state st" "route_search mode s t k st = (r, st')"
  shows "frame st st'"
proof -
  let ?out = "\<lparr>best = None, best_alts = None, shortest = None, shortest_alts = None\<rparr>"
  obtain r1 st1 where p: "(if mode \<in> {''both'', ''penalized''}
      then route_penalized s t k ?out st else (Inr ?out, st)) = (r1, st1)"
    by (metis surj_pair)
  have f1: "frame st st1"
    using p route_penalized_frame [OF assms(1)] by (auto simp: frame_refl split: if_splits)
  show ?thesis
  proof (cases r1)
    case (Inl e)
    then have "st' = st1" using assms(2) p by (simp add: route_search_def)
    then show ?thesis using f1 by simp
  next
    case (Inr out')
    then have "(if mode \<in> {''both'', ''distance''} then route_distance s t k out' st1
                else (Inr out', st1)) = (r, st')"
      using assms(2) p by (simp add: route_search_def)
    then have "st' = st1"
      using route_distance_frame by (auto split: if_splits)
    then show ?thesis using f1 by simp
  qed
qed

lemma route_search_visible:
  assumes "wf_state st1" "wf_state st2" "visible st1 = visible st2"
  shows "fst (route_search mode s t k st1) = fst (route_search mode s t k st2)"
proof -
  let ?out = "\<lparr>best = None, best_alts = None, shortest = None, shortest_alts = None\<rparr>"
  let ?P = "\<lambda>st. if mode \<in> {''both'', ''penalized''}
      then route_penalized s t k ?out st else (Inr ?out, st)"
  obtain r1 st1' where p1: "?P st1 = (r1, st1')" by (metis surj_pair)
  obtain r2 st2' where p2: "?P st2 = (r2, st2')" by (metis surj_pair)
  have r: "r1 = r2"
    using p1 p2 route_penalized_visible [OF assms, of s t k ?out]
    by (auto split: if_splits)
  have f1: "frame st1 st1'"
    using p1 route_penalized_frame [OF assms(1)] by (auto simp: frame_refl split: if_splits)
  have f2: "frame st2 st2'"
    using p2 route_penalized_frame [OF assms(2)] by (auto simp: frame_refl split: if_splits)
  have v: "visible st1' = visible st2'"
    using frame_visible [OF assms(1) f1] frame_visible [OF assms(2) f2] assms(3) by simp
  show ?thesis
    using p1 p2 r route_distance_visible [OF v]
    by (simp add: route_search_def Let_def split: sum.splits)
qed

lemma route_frame_aux:
  assumes "wf_state st" "route req st = (r, st')"
  shows "frame st st'"
proof (cases "\<exists>r0. route_search (case mode_arg req of None \<Rightarrow> ''both'' | Some m \<Rightarrow> m)
                (the (source_arg req)) (the (target_arg req))
                (case arg_or (k_arg req) 3 of Parsed k \<Rightarrow> k | Unparsable \<Rightarrow> 0) st = (r0, st')")
  case True
  then show ?thesis using route_search_frame [OF assms(1)] by blast
next
  case False
  then have "st' = st"
    using assms(2) unfolding route_def Let_def
    by (auto split: parsed.splits option.splits if_splits prod.splits)
  then show ?thesis by (simp add: frame_refl)
qed

lemma route_visible:
  assumes "wf_state st1" "wf_state st2" "visible st1 = visible st2"
  shows "fst (route req st1) = fst (route req st2)"
proof -
  have n: "in_graph x (GRAPH st1) = in_graph x (GRAPH st2)" for x
    using assms(3) by (simp add: visible_def in_graph_def)
  have f: "forecast_map st1 = forecast_map st2"
    using assms(3) by (simp add: visible_def)
  have s: "fst (case route_search mode s t k st1 of (r, st') \<Rightarrow> (route_response r, st'))
         = fst (case route_search mode s t k st2 of (r, st') \<Rightarrow> (route_response r, st'))"
    for mode s t k
    using route_search_visible [OF assms, of mode s t k] by (simp add: split_beta)
  show ?thesis
    unfolding route_def Let_def n f
    by (auto simp add: s split: parsed.splits option.splits)
qed

text \<open>
  C10. A route request leaves the process-wide state unchanged: the graph with its nodes,
  edges and stored attributes, the forecast cache and the active forecast are the same
  after the call, and every attribute dictionary that existed before has its contents;
  the penalized weights went to dictionaries allocated for the copy. The same request on
  the resulting state gives the same response.
\<close>

theorem route_frame:
  assumes "wf_state st" "route req st = (r, st')"
  shows "GRAPH st' = GRAPH st
       \<and> graph_edges (heap st') (GRAPH st') = graph_edges (heap st) (GRAPH st)
       \<and> (\<forall>a < next_addr st. heap st' a = heap st a)
       \<and> FORECAST_CACHE st' = FORECAST_CACHE st
       \<and> forecast_map st' = forecast_map st
       \<and> wf_state st'
       \<and> fst (route req st') = r"
proof -
  have f: "frame st st'" by (rule route_frame_aux [OF assms])
  have w: "wf_state st'" by (rule frame_view(2) [OF assms(1) f])
  have "fst (route req st') = fst (route req st)"
    by (rule route_visible [OF w assms(1) frame_visible [OF assms(1) f]])
  then show ?thesis
    using f w frame_view(1) [OF assms(1) f] assms(2) by (simp add: frame_def)
qed

lemma abc_wf: "wf_state abc_start" "wf_state abc_loaded"
  by (simp_all add: wf_state_def abc_loaded_def abc_start_def abc_graph_def)

theorem route_frame_witness:
  "wf_state abc_loaded
   \<and> GRAPH (snd (route (abc_request ''A'' ''C'' ''both'' 3) abc_loaded)) = abc_graph
   \<and> heap (snd (route (abc_request ''A'' ''C'' ''both'' 3) abc_loaded)) 0 = abc_edge ''e1''
   \<and> heap (snd (route (abc_request ''A'' ''C'' ''both'' 3) abc_loaded)) 1 = abc_edge ''e2''
   \<and> forecast_map (snd (route (abc_request ''A'' ''C'' ''both'' 3) abc_loaded))
       = Some (by_edge_id abc_table)
   \<and> fst (route (abc_request ''A'' ''C'' ''both'' 3)
             (snd (route (abc_request ''A'' ''C'' ''both'' 3) abc_loaded)))
       = fst (route (abc_request ''A'' ''C'' ''both'' 3) abc_loaded)"
  using route_frame [OF abc_wf(2) surjective_pairing, of "abc_request ''A'' ''C'' ''both'' 3"]
    abc_wf(2)
  by (simp add: abc_loaded_def abc_start_def)

section \<open>Forecast tables cover the graph\<close>

lemma predict_forecast_covers:
  assumes "predict_forecast M es h d p = Inr t"
  shows "covers es t" and "t \<noteq> []"
proof -
  define rows where "rows = map (\<lambda>(u, v, data).
                   \<lparr>r_edge_id = id_attr data, x_hour = h, x_day_of_week = d,
                    x_is_peak = p, x_capacity = capacity data, x_length_m = length_m data,
                    x_flow_lag1 = 0.1 * capacity data, x_flow_lag2 = 0.1 * capacity data\<rparr>) es"
  have ne: "rows \<noteq> []" and len: "length (M (map FEATURES rows)) = length rows"
    and t: "t = map (\<lambda>(r, p). \<lparr>edge_id = r_edge_id r, pred_flow = p,
                                     f_capacity = x_capacity r\<rparr>) (zip rows (M (map FEATURES rows)))"
    using assms unfolding predict_forecast_def Let_def rows_def [symmetric]
    by (simp_all split: if_splits)
  have "map (\<lambda>r. (edge_id r, f_capacity r)) t
          = map (\<lambda>r. (r_edge_id r, x_capacity r)) (map fst (zip rows (M (map FEATURES rows))))"
    unfolding t by (simp add: split_beta)
  also have "\<dots> = map (\<lambda>r. (r_edge_id r, x_capacity r)) rows"
    using len by (simp only: map_fst_zip)
  also have "\<dots> = map (\<lambda>(u, v, d). (id_attr d, capacity d)) es"
    unfolding rows_def by (simp add: split_beta)
  finally show "covers es t" unfolding covers_def .
  have "length t = length rows"
    unfolding t using len by simp
  then show "t \<noteq> []" using ne by auto
qed

lemma forecast_not_Ok:
  assumes "forecast M req st = (r, st')"
  shows "(\<exists>t. r = Ok t) \<or> st' = st"
  using assms unfolding forecast_def Let_def
  by (auto split: parsed.splits option.splits sum.splits if_splits)

lemma forecast_preserves:
  assumes "wf_state st" "cache_ok st" "active_ok st" "forecast M req st = (r, st')"
  shows "wf_state st' \<and> cache_ok st' \<and> active_ok st'
         \<and> (\<forall>t. r = Ok t \<longrightarrow> covers (graph_edges (heap st) (GRAPH st)) t \<and> t \<noteq> [])"
proof (cases "\<exists>t. r = Ok t")
  case False
  then have "st' = st" using forecast_not_Ok [OF assms(4)] by simp
  then show ?thesis using assms False by simp
next
  case True
  then obtain t where r: "r = Ok t" by blast
  from assms(4) [unfolded r] show ?thesis
  proof (cases rule: forecast_Ok_cases)
    case (1 h d p)
    have c: "covers (graph_edges (heap st) (GRAPH st)) t \<and> t \<noteq> []"
      using assms(2) 1(5) by (simp add: cache_ok_def)
    show ?thesis
      using c assms(1,2) r unfolding 1(6)
      by (auto simp: wf_state_def cache_ok_def active_ok_def)
  next
    case (2 h d p)
    have c: "covers (graph_edges (heap st) (GRAPH st)) t \<and> t \<noteq> []"
      using predict_forecast_covers [OF 2(5)] by simp
    show ?thesis
      using c assms(1,2) r unfolding 2(6)
      by (auto simp: wf_state_def cache_ok_def active_ok_def)
  qed
qed

lemma route_preserves:
  assumes "wf_state st" "cache_ok st" "active_ok st" "route req st = (r, st')"
  shows "wf_state st' \<and> cache_ok st' \<and> active_ok st'"
proof -
  have f: "frame st st'" by (rule route_frame_aux [OF assms(1,4)])
  have v: "graph_edges (heap st') (GRAPH st') = graph_edges (heap st) (GRAPH st)"
    by (rule frame_view(1) [OF assms(1) f])
  have "FORECAST_CACHE st' = FORECAST_CACHE st" "forecast_map st' = forecast_map st"
    using f by (simp_all add: frame_def)
  then show ?thesis
    using assms(2,3) v frame_view(2) [OF assms(1) f]
    by (simp add: cache_ok_def active_ok_def)
qed

lemma reachable_invariant:
  "reachable M st \<Longrightarrow> wf_state st \<and> cache_ok st \<and> active_ok st"
proof (induction rule: reachable.induct)
  case (start st)
  then show ?case by (simp add: cache_ok_def active_ok_def)
next
  case (after_forecast st req r st')
  then show ?case using forecast_preserves [of st M req r st'] by blast
next
  case (after_route st req' r' st')
  then show ?case using route_preserves [of st req' r' st'] by blast
qed

lemma covers_lookup:
  assumes "covers es t" "(u, v, d) \<in> set es"
  shows "\<exists>r \<in> set t. dict_get (by_edge_id t) (id_attr d) = Some r \<and> edge_id r = id_attr d"
proof -
  have "id_attr d \<in> set (map (\<lambda>(u, v, d). id_attr d) es)"
    using assms(2) by force
  also have "map (\<lambda>(u, v, d). id_attr d) es = map fst (map (\<lambda>(u, v, d). (id_attr d, capacity d)) es)"
    by (simp add: split_beta)
  also have "\<dots> = map edge_id t"
    using arg_cong [OF assms(1) [unfolded covers_def], of "map fst"] by (simp add: o_def)
  finally have "id_attr d \<in> fst ` set (rev (by_edge_id t))"
    by (force simp: by_edge_id_def)
  then obtain r where r: "map_of (rev (by_edge_id t)) (id_attr d) = Some r"
    by (metis map_of_eq_None_iff not_Some_eq)
  then have "(id_attr d, r) \<in> set (by_edge_id t)"
    using map_of_SomeD by fastforce
  then have "r \<in> set t" "edge_id r = id_attr d"
    by (auto simp: by_edge_id_def)
  then show ?thesis using r by (auto simp: dict_get_def)
qed

text \<open>
  C6. Every table that \<open>predict_forecast\<close> produces has exactly one entry per edge of the
  graph, in order, with that edge's identifier and capacity (and the predicted flow). In
  every state of a running process, the table that \<open>/forecast\<close> answers with, from the
  cache or computed, covers the graph in this way; looking an edge's identifier up in the
  active forecast gives an entry for that identifier; and every table the cache holds
  afterwards covers the graph.
\<close>

theorem forecast_total_coverage:
  "(predict_forecast M es hour day peak = Inr t \<longrightarrow> covers es t)
   \<and> (reachable M st \<and> forecast M req st = (Ok t', st') \<longrightarrow>
        covers (graph_edges (heap st) (GRAPH st)) t'
        \<and> (\<forall>(u, v, d) \<in> set (graph_edges (heap st') (GRAPH st')).
             \<exists>r \<in> set t'. dict_get (by_edge_id t') (id_attr d) = Some r \<and> edge_id r = id_attr d)
        \<and> (\<forall>key tk. FORECAST_CACHE st' key = Some tk \<longrightarrow>
              covers (graph_edges (heap st') (GRAPH st')) tk))"
proof (intro conjI impI)
  assume "predict_forecast M es hour day peak = Inr t"
  then show "covers es t" by (rule predict_forecast_covers)
next
  assume a: "reachable M st \<and> forecast M req st = (Ok t', st')"
  then have inv: "wf_state st" "cache_ok st" "active_ok st"
    using reachable_invariant by blast+
  note p = forecast_preserves [OF inv, of M req "Ok t'" st']
  have same: "graph_edges (heap st') (GRAPH st') = graph_edges (heap st) (GRAPH st)"
    using a by (auto elim: forecast_Ok_cases)
  show "covers (graph_edges (heap st) (GRAPH st)) t'"
    using p a by simp
  then show "\<forall>(u, v, d) \<in> set (graph_edges (heap st') (GRAPH st')).
             \<exists>r \<in> set t'. dict_get (by_edge_id t') (id_attr d) = Some r \<and> edge_id r = id_attr d"
    unfolding same using covers_lookup by fast
  show "\<forall>key tk. FORECAST_CACHE st' key = Some tk \<longrightarrow>
              covers (graph_edges (heap st') (GRAPH st')) tk"
    using p a by (simp add: cache_ok_def)
qed

lemma abc_reachable: "reachable M abc_start"
  by (rule reachable.start) (simp_all add: abc_wf, simp_all add: abc_start_def)

theorem forecast_total_coverage_witness:
  "reachable predict_350 abc_start
   \<and> forecast predict_350 no_args abc_start = (Ok abc_table, abc_loaded)
   \<and> covers (graph_edges (heap abc_start) (GRAPH abc_start)) abc_table
   \<and> FORECAST_CACHE abc_loaded (9, 1, 1) = Some abc_table
   \<and> covers (graph_edges (heap abc_loaded) (GRAPH abc_loaded)) abc_table"
proof -
  have "FORECAST_CACHE abc_loaded (9, 1, 1) = Some abc_table"
    by (simp add: abc_loaded_def)
  then show ?thesis
    using forecast_total_coverage
      [of predict_350 "graph_edges (heap abc_start) (GRAPH abc_start)" 9 1 1 abc_table
         abc_start no_args abc_table abc_loaded]
      abc_reachable [of predict_350] abc_forecast abc_predict
    by simp
qed

section \<open>Validation of route requests\<close>

lemma k_shortest_paths_le_1:
  assumes "k \<le> 1"
  shows "k_shortest_paths es s t c k = k_shortest_paths es s t c 1"
  using assms unfolding k_shortest_paths_def
  by (subst (1 2) k_shortest_paths_loop.simps) (simp split: sum.splits option.splits)

lemma route_search_le_1:
  assumes "k \<le> 1"
  shows "route_search mode s t k st = route_search mode s t 1 st"
  unfolding route_search_def route_penalized_def route_distance_def
    k_shortest_paths_le_1 [OF assms, of _ s t] ..



text \<open>
  C5 (as amended). For a route request whose \<open>k\<close> is absent or an integer: when source
  or target is missing or empty, or is not a node of the graph, the answer is a 400 error
  and the state is as before; nothing was searched. A \<open>k\<close> below 1 is not rejected: the
  request is served as with \<open>k = 1\<close>. A mode other than both, penalized and distance is
  not rejected either: with valid endpoints and an active forecast the answer is the 404
  "no path" error, and no search has run.
\<close>

theorem route_validation:
  assumes "arg_or (k_arg req) 3 = Parsed k"
  shows "((source_arg req = None \<or> source_arg req = Some [] \<or> target_arg req = None
            \<or> target_arg req = Some []) \<longrightarrow>
           route req st = (Err 400 ''source and target are required'', st))
       \<and> (source_arg req = Some s \<and> target_arg req = Some t \<and> s \<noteq> [] \<and> t \<noteq> []
            \<and> (\<not> in_graph s (GRAPH st) \<or> \<not> in_graph t (GRAPH st)) \<longrightarrow>
           route req st = (Err 400 ''invalid source/target'', st))
       \<and> (source_arg req = Some s \<and> target_arg req = Some t \<and> s \<noteq> [] \<and> t \<noteq> []
            \<and> in_graph s (GRAPH st) \<and> in_graph t (GRAPH st) \<and> forecast_loaded st
            \<and> mode_arg req = Some m \<and> m \<notin> {''both'', ''penalized'', ''distance''} \<longrightarrow>
           route req st = (Err 404 ''no path'', st))
       \<and> (k \<le> 1 \<longrightarrow> route req st = route (req\<lparr>k_arg := Some (Parsed 1)\<rparr>) st)"
proof (intro conjI impI)
  assume "source_arg req = None \<or> source_arg req = Some [] \<or> target_arg req = None
            \<or> target_arg req = Some []"
  then show "route req st = (Err 400 ''source and target are required'', st)"
    using assms by (auto simp: route_def Let_def split: option.splits)
next
  assume "source_arg req = Some s \<and> target_arg req = Some t \<and> s \<noteq> [] \<and> t \<noteq> []
            \<and> (\<not> in_graph s (GRAPH st) \<or> \<not> in_graph t (GRAPH st))"
  then show "route req st = (Err 400 ''invalid source/target'', st)"
    using assms by (auto simp: route_def Let_def)
next
  assume a: "source_arg req = Some s \<and> target_arg req = Some t \<and> s \<noteq> [] \<and> t \<noteq> []
            \<and> in_graph s (GRAPH st) \<and> in_graph t (GRAPH st) \<and> forecast_loaded st
            \<and> mode_arg req = Some m \<and> m \<notin> {''both'', ''penalized'', ''distance''}"
  then have "route_search m s t k st
      = (Inr \<lparr>best = None, best_alts = None, shortest = None, shortest_alts = None\<rparr>, st)"
    by (simp add: route_search_def)
  then show "route req st = (Err 404 ''no path'', st)"
    using assms a by (simp add: route_def Let_def forecast_loaded_def route_response_def)
next
  assume "k \<le> 1"
  then show "route req st = route (req\<lparr>k_arg := Some (Parsed 1)\<rparr>) st"
    using assms route_search_le_1 [of k]
    by (auto simp add: route_def Let_def arg_or_def split: option.splits)
qed





text \<open>
  The claim as stated fails: with \<open>k = 0\<close> the request is served, and an unknown mode is
  answered with 404.
\<close>

theorem route_validation_counterexample:
  "fst (route (abc_request ''A'' ''B'' ''distance'' 0) abc_loaded)
     = Ok \<lparr>best = None, best_alts = None,
           shortest = Some \<lparr>path = [''A'', ''B''], len_m = 100,
             coords = [\<lparr>c_id = ''A'', c_lat = 0, c_lon = 0, c_label = ''Node A''\<rparr>,
                       \<lparr>c_id = ''B'', c_lat = 0, c_lon = 1, c_label = ''Node B''\<rparr>]\<rparr>,
           shortest_alts = Some [\<lparr>path = [''A'', ''B''], len_m = 100,
             coords = [\<lparr>c_id = ''A'', c_lat = 0, c_lon = 0, c_label = ''Node A''\<rparr>,
                       \<lparr>c_id = ''B'', c_lat = 0, c_lon = 1, c_label = ''Node B''\<rparr>]\<rparr>]\<rparr>
   \<and> fst (route (abc_request ''A'' ''B'' ''fastest'' 3) abc_loaded) = Err 404 ''no path''"
  by (simp add: route_def route_search_def route_distance_def route_response_def
      astar_distance_only_def astar_path_def astar_loop.simps successors_def neighbors_def
      k_shortest_paths_def k_shortest_paths_loop.simps ssp_next_def pop_next_def push_all_def
      path_cost_def get_edge_data_def route_entry_def path_length_def weight_attr_def
      graph_edges_def in_graph_def by_edge_id_def arg_or_def abc_loaded_def abc_start_def
      abc_graph_def abc_edge_def abc_table_def abc_request_def)

theorem route_validation_witness:
  "route (abc_request ''A'' ''Z'' ''both'' 3) abc_loaded
     = (Err 400 ''invalid source/target'', abc_loaded)
   \<and> route (abc_request [] ''C'' ''both'' 3) abc_loaded
     = (Err 400 ''source and target are required'', abc_loaded)
   \<and> route (abc_request ''A'' ''C'' ''fastest'' 3) abc_loaded = (Err 404 ''no path'', abc_loaded)
   \<and> route (abc_request ''A'' ''C'' ''both'' 0) abc_loaded
     = route (abc_request ''A'' ''C'' ''both'' 1) abc_loaded"
  using route_validation [of "abc_request ''A'' ''Z'' ''both'' 3" 3 abc_loaded "''A''" "''Z''"]
    route_validation [of "abc_request [] ''C'' ''both'' 3" 3 abc_loaded]
    route_validation [of "abc_request ''A'' ''C'' ''fastest'' 3" 3 abc_loaded "''A''" "''C''"
      "''fastest''"]
    route_validation [of "abc_request ''A'' ''C'' ''both'' 0" 0 abc_loaded]
  by (simp add: abc_request_def arg_or_def in_graph_def forecast_loaded_def abc_loaded_def
      abc_start_def abc_graph_def by_edge_id_def abc_table_def)

section \<open>Routes from a node to itself\<close>

lemma astar_loop_same_node:
  "astar_loop es X h c [(f, 0, X, [])] [] = Some [X]"
  by (simp add: astar_loop.simps)

lemma k_shortest_paths_same_node:
  "k_shortest_paths es X X c k = Inr [[X]]"
proof -
  let ?g1 = "\<lparr>listA = [[X]], listB = [], prev_path = Some [X]\<rparr>"
  have first: "ssp_next es X X c \<lparr>listA = [], listB = [], prev_path = None\<rparr>
                 = Inr (Some ([X], ?g1))"
    by (simp add: ssp_next_def astar_loop_same_node push_all_def pop_next_def)
  have second: "ssp_next es X X c ?g1 = Inr None"
    by (simp add: ssp_next_def deviations_def push_all_def pop_next_def)
  show ?thesis
    unfolding k_shortest_paths_def
    by (subst k_shortest_paths_loop.simps, simp add: first,
        subst k_shortest_paths_loop.simps, simp add: second)
qed

lemma build_penalized_graph_same:
  assumes "build_penalized_graph st = (Gp, st')"
  shows "GRAPH st' = GRAPH st" "forecast_map st' = forecast_map st"
  using assms by (auto simp: build_penalized_graph_def copy_def split: prod.splits)

lemma route_entry_single:
  assumes "map_of (nodes (GRAPH st)) X = Some (Some d)"
  shows "route_entry st [X]
           = Inr \<lparr>path = [X], len_m = 0,
                  coords = [\<lparr>c_id = X, c_lat = lat d, c_lon = lon d, c_label = label d\<rparr>]\<rparr>"
  using assms by (simp add: route_entry_def path_length_def)



text \<open>
  C9 (as amended). For a node X of the graph that has its attributes (latitude, longitude,
  label) and a non-empty identifier, once a forecast is active, a route request from X to
  X whose \<open>k\<close> is absent or an integer and whose mode is absent or one of both,
  penalized and distance succeeds: each requested group holds the path [X] with length 0
  and its one alternative, the same path.
\<close>

theorem route_same_node:
  assumes "map_of (nodes (GRAPH st)) X = Some (Some d)" "X \<noteq> []" "forecast_loaded st"
    "source_arg req = Some X" "target_arg req = Some X"
    "arg_or (k_arg req) 3 = Parsed k"
    "mode = (case mode_arg req of None \<Rightarrow> ''both'' | Some m \<Rightarrow> m)"
    "mode \<in> {''both'', ''penalized'', ''distance''}"
  shows "\<exists>st'. route req st =
           (Ok \<lparr>best = (if mode = ''distance'' then None else Some (single_node_item X d)),
                best_alts = (if mode = ''distance'' then None else Some [single_node_item X d]),
                shortest = (if mode = ''penalized'' then None else Some (single_node_item X d)),
                shortest_alts =
                  (if mode = ''penalized'' then None else Some [single_node_item X d])\<rparr>, st')"
proof -
  have inG: "in_graph X (GRAPH st)"
    using assms(1) by (force simp: in_graph_def dest: map_of_SomeD)
  obtain Gp st1 where bp: "build_penalized_graph st = (Gp, st1)"
    by (cases "build_penalized_graph st")
  have G1: "map_of (nodes (GRAPH st1)) X = Some (Some d)"
    using assms(1) build_penalized_graph_same(1) [OF bp] by simp
  have a1: "astar_with_congestion st X X = Inr [X]"
    using inG by (simp add: astar_with_congestion_def astar_path_def astar_loop_same_node
        in_graph_def)
  have a2: "astar_distance_only st' X X = Inr [X]" if "in_graph X (GRAPH st')" for st'
    using that by (simp add: astar_distance_only_def astar_path_def astar_loop_same_node
        in_graph_def)
  have inG1: "in_graph X (GRAPH st1)"
    using inG build_penalized_graph_same(1) [OF bp] by simp
  have pen: "route_penalized X X k out st
      = (Inr (out\<lparr>best := Some (single_node_item X d),
                  best_alts := Some [single_node_item X d]\<rparr>), st1)" for out
    by (simp add: route_penalized_def a1 bp k_shortest_paths_same_node
        route_entry_single [OF G1] single_node_item_def)
  have dist: "route_distance X X k out st'
      = (Inr (out\<lparr>shortest := Some (single_node_item X d),
                  shortest_alts := Some [single_node_item X d]\<rparr>), st')"
    if "in_graph X (GRAPH st')" "map_of (nodes (GRAPH st')) X = Some (Some d)" for out st'
    by (simp add: route_distance_def a2 [OF that(1)] k_shortest_paths_same_node
        route_entry_single [OF that(2)] single_node_item_def)
  consider "mode = ''both''" | "mode = ''penalized''" | "mode = ''distance''"
    using assms(8) by auto
  then have "\<exists>st'. route_search mode X X k st =
           (Inr \<lparr>best = (if mode = ''distance'' then None else Some (single_node_item X d)),
                best_alts = (if mode = ''distance'' then None else Some [single_node_item X d]),
                shortest = (if mode = ''penalized'' then None else Some (single_node_item X d)),
                shortest_alts =
                  (if mode = ''penalized'' then None else Some [single_node_item X d])\<rparr>, st')"
  proof cases
    case 1
    then show ?thesis
      by (simp add: route_search_def pen dist [OF inG1 G1])
  next
    case 2
    then show ?thesis
      by (simp add: route_search_def pen)
  next
    case 3
    then show ?thesis
      by (simp add: route_search_def dist [OF inG assms(1)])
  qed
  then obtain st' where rs: "route_search mode X X k st =
           (Inr \<lparr>best = (if mode = ''distance'' then None else Some (single_node_item X d)),
                best_alts = (if mode = ''distance'' then None else Some [single_node_item X d]),
                shortest = (if mode = ''penalized'' then None else Some (single_node_item X d)),
                shortest_alts =
                  (if mode = ''penalized'' then None else Some [single_node_item X d])\<rparr>, st')"
    by blast
  have "route req st = (case route_search mode X X k st of (r, st') \<Rightarrow> (route_response r, st'))"
    using assms(2-7) inG by (auto simp add: route_def Let_def forecast_loaded_def)
  then show ?thesis
    unfolding rs using assms(8) by (auto simp: route_response_def)
qed

theorem route_same_node_witness:
  "\<exists>st'. route (abc_request ''A'' ''A'' ''both'' 3) abc_loaded =
     (Ok \<lparr>best = Some (single_node_item ''A'' \<lparr>lat = 0, lon = 0, label = ''Node A''\<rparr>),
          best_alts = Some [single_node_item ''A'' \<lparr>lat = 0, lon = 0, label = ''Node A''\<rparr>],
          shortest = Some (single_node_item ''A'' \<lparr>lat = 0, lon = 0, label = ''Node A''\<rparr>),
          shortest_alts =
            Some [single_node_item ''A'' \<lparr>lat = 0, lon = 0, label = ''Node A''\<rparr>]\<rparr>, st')"
  using route_same_node [of abc_loaded "''A''" "\<lparr>lat = 0, lon = 0, label = ''Node A''\<rparr>"
      "abc_request ''A'' ''A'' ''both'' 3" 3 "''both''"]
  by (simp add: abc_request_def arg_or_def forecast_loaded_def abc_loaded_def abc_start_def
      abc_graph_def by_edge_id_def abc_table_def)

lemma abc_bare_reachable: "reachable predict_350 abc_bare"
proof -
  have "reachable predict_350 abc_bare_start"
    by (rule reachable.start) (simp_all add: abc_bare_start_def wf_state_def abc_graph_def)
  then show ?thesis
    unfolding abc_bare_def by (rule reachable.after_forecast) (rule surjective_pairing)
qed

lemma abc_bare_eq:
  "abc_bare = abc_bare_start
     \<lparr>FORECAST_CACHE := (FORECAST_CACHE abc_bare_start)((9, 1, 1) \<mapsto>
         [\<lparr>edge_id = ''e1'', pred_flow = 350, f_capacity = 400\<rparr>,
          \<lparr>edge_id = ''e2'', pred_flow = 350, f_capacity = 400\<rparr>,
          \<lparr>edge_id = ''e3'', pred_flow = 350, f_capacity = 400\<rparr>]),
      forecast_map := Some
         [(''e1'', \<lparr>edge_id = ''e1'', pred_flow = 350, f_capacity = 400\<rparr>),
          (''e2'', \<lparr>edge_id = ''e2'', pred_flow = 350, f_capacity = 400\<rparr>),
          (''e3'', \<lparr>edge_id = ''e3'', pred_flow = 350, f_capacity = 400\<rparr>)]\<rparr>"
  by (simp add: abc_bare_def forecast_def no_args_def arg_or_def use_cache_def lower_def
      abc_bare_start_def predict_forecast_def graph_edges_def abc_graph_def abc_edge_def
      predict_350_def by_edge_id_def)

text \<open>
  C9 as stated fails. A mode outside both, penalized and distance is answered with 404
  "no path" also from a node to itself; for a node that has no attributes (reachable: the
  endpoint of an edge that \<open>nodes.csv\<close> does not list) the coordinates lookup raises
  \<open>KeyError\<close>, which the view does not catch; and a \<open>k\<close> that is not an integer raises
  \<open>ValueError\<close> before anything else.
\<close>

theorem route_same_node_counterexample:
  "fst (route (abc_request ''A'' ''A'' ''fastest'' 3) abc_loaded) = Err 404 ''no path''
   \<and> reachable predict_350 abc_bare
   \<and> in_graph ''E'' (GRAPH abc_bare) \<and> forecast_loaded abc_bare
   \<and> fst (route (abc_request ''E'' ''E'' ''both'' 3) abc_bare) = Crash KeyError
   \<and> fst (route \<lparr>source_arg = Some ''A'', target_arg = Some ''A'', mode_arg = None,
                   k_arg = Some Unparsable\<rparr> abc_loaded) = Crash ValueError"
proof -
  have 1: "fst (route (abc_request ''A'' ''A'' ''fastest'' 3) abc_loaded) = Err 404 ''no path''"
    by (simp add: route_def route_search_def route_response_def abc_request_def arg_or_def
        in_graph_def abc_loaded_def abc_start_def abc_graph_def by_edge_id_def abc_table_def)
  have 2: "in_graph ''E'' (GRAPH abc_bare)" "forecast_loaded abc_bare"
    by (simp_all add: abc_bare_eq abc_bare_start_def in_graph_def forecast_loaded_def
        abc_graph_def)
  obtain Gp st1 where bp: "build_penalized_graph abc_bare = (Gp, st1)"
    by (cases "build_penalized_graph abc_bare")
  have n: "map_of (nodes (GRAPH st1)) ''E'' = Some None"
    using build_penalized_graph_same(1) [OF bp]
    by (simp add: abc_bare_eq abc_bare_start_def abc_graph_def)
  have a: "astar_with_congestion abc_bare ''E'' ''E'' = Inr [''E'']"
    using 2(1) by (simp add: astar_with_congestion_def astar_path_def astar_loop_same_node
        in_graph_def)
  have "route_penalized ''E'' ''E'' 3 out abc_bare = (Inl KeyError, st1)" for out
    by (simp add: route_penalized_def a bp k_shortest_paths_same_node route_entry_def n)
  then have "fst (route_search ''both'' ''E'' ''E'' 3 abc_bare) = Inl KeyError"
    by (simp add: route_search_def)
  then have 3: "fst (route (abc_request ''E'' ''E'' ''both'' 3) abc_bare) = Crash KeyError"
    using 2 by (simp add: route_def abc_request_def arg_or_def forecast_loaded_def
        route_response_def split_beta)
  have 4: "fst (route \<lparr>source_arg = Some ''A'', target_arg = Some ''A'', mode_arg = None,
                   k_arg = Some Unparsable\<rparr> abc_loaded) = Crash ValueError"
    by (simp add: route_def arg_or_def)
  show ?thesis using 1 2 3 4 abc_bare_reachable by simp
qed

section \<open>The single-path search finds a cheapest path\<close>

lemma neighbors_iff:
  "(v, d) \<in> set (neighbors es u) \<longleftrightarrow> (u, v, d) \<in> set es \<or> ((v, u, d) \<in> set es \<and> v \<noteq> u)"
  by (auto simp: neighbors_def split: if_splits)

lemma get_edge_data_sym: "get_edge_data es u v = get_edge_data es v u"
proof -
  have "(\<lambda>(a, b, d). (a = u \<and> b = v) \<or> (a = v \<and> b = u))
      = (\<lambda>(a, b, d::'a). (a = v \<and> b = u) \<or> (a = u \<and> b = v))"
    by auto
  then show ?thesis unfolding get_edge_data_def by simp
qed

lemma get_edge_data_neighbors:
  assumes "get_edge_data es u v = Some d"
  shows "(v, d) \<in> set (neighbors es u)"
proof -
  from assms obtain a b where f: "find (\<lambda>(a, b, d). (a = u \<and> b = v) \<or> (a = v \<and> b = u)) es
      = Some (a, b, d)"
    by (auto simp: get_edge_data_def)
  then have "(a, b, d) \<in> set es" "(a = u \<and> b = v) \<or> (a = v \<and> b = u)"
    by (auto simp: find_Some_iff in_set_conv_nth)
  then show ?thesis by (auto simp: neighbors_iff)
qed

lemma neighbors_get_edge_data:
  assumes "simple_graph es" "(v, d) \<in> set (neighbors es u)"
  shows "get_edge_data es u v = Some d"
  using assms get_edge_data_sym [of es u v]
  by (auto simp: simple_graph_def list_all_iff neighbors_iff)

lemma neighbors_nonneg:
  assumes "nonneg_cost es cost" "(v, d) \<in> set (neighbors es u)"
  shows "0 \<le> cost u v d"
  using assms by (auto simp: nonneg_cost_def list_all_iff neighbors_iff)

lemma is_walk_snoc:
  "is_walk es (p @ [v]) \<longleftrightarrow> p = [] \<or> (is_walk es p \<and> get_edge_data es (last p) v \<noteq> None)"
  by (induction es p rule: is_walk.induct) auto

lemma is_walk_nonempty: "is_walk es p \<Longrightarrow> p \<noteq> []"
  by auto

lemma path_cost_simps:
  "path_cost es cost [] = 0"
  "path_cost es cost [u] = 0"
  "path_cost es cost (u # v # rest) = edge_cost es cost u v + path_cost es cost (v # rest)"
  by (simp_all add: path_cost_def edge_cost_def)

lemma path_cost_snoc:
  "p \<noteq> [] \<Longrightarrow> path_cost es cost (p @ [v]) = path_cost es cost p + edge_cost es cost (last p) v"
proof (induction p rule: induct_list012)
  case 1
  then show ?case by simp
next
  case (2 x)
  then show ?case by (simp add: path_cost_simps)
next
  case (3 x y zs)
  then show ?case by (simp add: path_cost_simps)
qed

lemma edge_cost_nonneg:
  assumes "nonneg_cost es cost"
  shows "0 \<le> edge_cost es cost u v"
proof (cases "get_edge_data es u v")
  case None
  then show ?thesis by (simp add: edge_cost_def)
next
  case (Some d)
  then show ?thesis
    using neighbors_nonneg [OF assms get_edge_data_neighbors [OF Some]]
    by (simp add: edge_cost_def)
qed

lemma path_cost_nonneg:
  assumes "nonneg_cost es cost"
  shows "0 \<le> path_cost es cost p"
  by (induction p rule: induct_list012)
     (simp_all add: path_cost_simps edge_cost_nonneg [OF assms])

lemma astar_loop_rule:
  assumes init: "I queue explored"
    and skip: "\<And>q ex x xs f g u ps. I q ex \<Longrightarrow> q = x # xs \<Longrightarrow> min_entry x xs = (f, g, u, ps)
                 \<Longrightarrow> u \<noteq> t \<Longrightarrow> u \<in> set ex \<Longrightarrow> I (remove1 (f, g, u, ps) q) ex"
    and expand: "\<And>q ex x xs f g u ps. I q ex \<Longrightarrow> q = x # xs \<Longrightarrow> min_entry x xs = (f, g, u, ps)
                 \<Longrightarrow> u \<noteq> t \<Longrightarrow> u \<notin> set ex
                 \<Longrightarrow> I (remove1 (f, g, u, ps) q @ successors es t h c ex g u ps) (u # ex)"
    and found: "\<And>q ex x xs f g ps. I q ex \<Longrightarrow> q = x # xs \<Longrightarrow> min_entry x xs = (f, g, t, ps)
                 \<Longrightarrow> Q (Some (rev (t # ps)))"
    and empty: "\<And>ex. I [] ex \<Longrightarrow> Q None"
  shows "Q (astar_loop es t h c queue explored)"
  using assms
proof (induction es t h c queue explored rule: astar_loop.induct)
  case (1 es target heuristic cost queue explored)
  note init = "1.prems"(1) and skip = "1.prems"(2) and expand = "1.prems"(3)
    and found = "1.prems"(4) and empty = "1.prems"(5)
  show ?case
  proof (cases queue)
    case Nil
    then show ?thesis using empty init by (simp add: astar_loop.simps)
  next
    case (Cons x xs)
    obtain f g u ps where m: "min_entry x xs = (f, g, u, ps)"
      by (metis prod_cases4)
    show ?thesis
    proof (cases "u = target")
      case True
      then show ?thesis
        using found [OF init Cons] m Cons by (subst astar_loop.simps) simp
    next
      case False
      show ?thesis
      proof (cases "u \<in> set explored")
        case True
        have "Q (astar_loop es target heuristic cost (remove1 (f, g, u, ps) queue) explored)"
          by (rule "1.IH"(1) [OF Cons m [symmetric] refl refl False True
                skip [OF init Cons m False True] skip expand found empty])
        then show ?thesis
          using Cons m False True by (subst astar_loop.simps) simp
      next
        case nex: False
        have "Q (astar_loop es target heuristic cost
                (remove1 (f, g, u, ps) queue @ successors es target heuristic cost explored g u ps)
                (u # explored))"
          by (rule "1.IH"(2) [OF Cons m [symmetric] refl refl False nex
                expand [OF init Cons m False nex] skip expand found empty])
        then show ?thesis
          using Cons m False nex by (subst astar_loop.simps) simp
      qed
    qed
  qed
qed

lemma neighbors_edge_exists:
  assumes "(v, d) \<in> set (neighbors es u)"
  shows "get_edge_data es u v \<noteq> None"
proof -
  have "\<exists>x \<in> set es. (\<lambda>(a, b, d). (a = u \<and> b = v) \<or> (a = v \<and> b = u)) x"
    using assms by (auto simp: neighbors_iff)
  then have "find (\<lambda>(a, b, d). (a = u \<and> b = v) \<or> (a = v \<and> b = u)) es \<noteq> None"
    unfolding find_None_iff by blast
  then show ?thesis
    by (simp add: get_edge_data_def)
qed

lemma walk_snoc:
  assumes "walk es s p u" "(v, d) \<in> set (neighbors es u)"
  shows "walk es s (p @ [v]) v"
proof -
  have ne: "p \<noteq> []" using assms(1) by (auto simp: walk_def)
  then show ?thesis
    using assms neighbors_edge_exists [OF assms(2)]
    by (simp add: walk_def is_walk_snoc)
qed

lemma successors_iff:
  "e \<in> set (successors es t h c ex g u ps) \<longleftrightarrow>
     (\<exists>v d. (v, d) \<in> set (neighbors es u) \<and> v \<noteq> u \<and> v \<notin> set ex
            \<and> e = (g + c u v d + h v t, g + c u v d, v, u # ps))"
  by (auto simp: successors_def)

lemma min_entry_mem:
  assumes "q = x # xs" "min_entry x xs = e"
  shows "e \<in> set q"
  using min_entry_in [of x xs] assms by simp

lemma inv_valid_skip:
  assumes "inv_valid es s q ex"
  shows "inv_valid es s (remove1 e q) ex"
  using assms set_remove1_subset [of e q] unfolding inv_valid_def by blast

lemma inv_valid_expand:
  assumes "inv_valid es s q ex" "(f, g, u, ps) \<in> set q" "u \<notin> set ex"
  shows "inv_valid es s (remove1 (f, g, u, ps) q @ successors es t h c ex g u ps) (u # ex)"
proof -
  have cur: "walk es s (rev (u # ps)) u" "distinct (u # ps)" "set ps \<subseteq> set ex"
    using assms(1,2) unfolding inv_valid_def by auto
  have old: "walk es s (rev (u' # ps')) u' \<and> distinct (u' # ps') \<and> set ps' \<subseteq> set (u # ex)"
    if "(f', g', u', ps') \<in> set (remove1 (f, g, u, ps) q)" for f' g' u' ps'
  proof -
    have "(f', g', u', ps') \<in> set q" using that set_remove1_subset by fast
    then show ?thesis using assms(1) unfolding inv_valid_def by auto
  qed
  have new: "walk es s (rev (u' # ps')) u' \<and> distinct (u' # ps') \<and> set ps' \<subseteq> set (u # ex)"
    if "(f', g', u', ps') \<in> set (successors es t h c ex g u ps)" for f' g' u' ps'
  proof -
    from that obtain d where d: "(u', d) \<in> set (neighbors es u)" "u' \<noteq> u" "u' \<notin> set ex"
      "ps' = u # ps"
      by (auto simp: successors_iff)
    have "walk es s (rev (u # ps) @ [u']) u'"
      by (rule walk_snoc [OF cur(1) d(1)])
    then show ?thesis using d cur by auto
  qed
  show ?thesis
    unfolding inv_valid_def
  proof (intro ballI, clarify)
    fix f' g' u' ps'
    assume "(f', g', u', ps')
      \<in> set (remove1 (f, g, u, ps) q @ successors es t h c ex g u ps)"
    then consider "(f', g', u', ps') \<in> set (remove1 (f, g, u, ps) q)"
      | "(f', g', u', ps') \<in> set (successors es t h c ex g u ps)"
      by auto
    then show "walk es s (rev (u' # ps')) u' \<and> distinct (u' # ps')
               \<and> set ps' \<subseteq> set (u # ex)"
      using old new by cases blast+
  qed
qed

lemma astar_loop_valid:
  assumes "inv_valid es s queue explored" "astar_loop es t h c queue explored = Some p"
  shows "walk es s p t \<and> distinct p"
proof -
  have "\<forall>p. astar_loop es t h c queue explored = Some p \<longrightarrow> walk es s p t \<and> distinct p"
  proof (rule astar_loop_rule [where I = "inv_valid es s"
        and Q = "\<lambda>r. \<forall>p. r = Some p \<longrightarrow> walk es s p t \<and> distinct p"])
    show "inv_valid es s queue explored" by (rule assms(1))
  next
    fix q ex x xs f g u ps
    assume "inv_valid es s q ex"
    then show "inv_valid es s (remove1 (f, g, u, ps) q) ex" by (rule inv_valid_skip)
  next
    fix q ex x xs f g u ps
    assume "inv_valid es s q ex" "q = x # xs" "min_entry x xs = (f, g, u, ps)" "u \<notin> set ex"
    then show "inv_valid es s (remove1 (f, g, u, ps) q @ successors es t h c ex g u ps) (u # ex)"
      using inv_valid_expand min_entry_mem by metis
  next
    fix q ex x xs f g ps
    assume "inv_valid es s q ex" "q = x # xs" "min_entry x xs = (f, g, t, ps)"
    then have "walk es s (rev (t # ps)) t \<and> distinct (t # ps)"
      using min_entry_mem [of q x xs] unfolding inv_valid_def by fastforce
    then show "\<forall>p. Some (rev (t # ps)) = Some p \<longrightarrow> walk es s p t \<and> distinct p"
      by (metis distinct_rev option.inject)
  next
    fix ex
    show "\<forall>p. None = Some p \<longrightarrow> walk es s p t \<and> distinct p" by simp
  qed
  then show ?thesis using assms(2) by blast
qed

lemma inv_valid_init: "inv_valid es s [(f, g, s, [])] []"
  by (simp add: inv_valid_def walk_def)

lemma entry_kept:
  assumes "(f', g', v, ps') \<in> set q" "v \<noteq> u"
  shows "(f', g', v, ps') \<in> set (remove1 (f, g, u, ps) q)"
  using assms by (simp add: in_set_remove1)

lemma inv_front_skip:
  assumes "inv_front es s q ex" "u \<in> set ex"
  shows "inv_front es s (remove1 (f, g, u, ps) q) ex"
proof -
  have keep: "v \<in> set ex \<or> (\<exists>f' g' ps'. (f', g', v, ps') \<in> set (remove1 (f, g, u, ps) q))"
    if "v \<in> set ex \<or> (\<exists>f' g' ps'. (f', g', v, ps') \<in> set q)" for v
  proof (cases "v = u")
    case True
    then show ?thesis using assms(2) by simp
  next
    case False
    show ?thesis
      using that
    proof
      assume "v \<in> set ex"
      then show ?thesis by simp
    next
      assume "\<exists>f' g' ps'. (f', g', v, ps') \<in> set q"
      then obtain f' g' ps' where "(f', g', v, ps') \<in> set q" by blast
      then have "(f', g', v, ps') \<in> set (remove1 (f, g, u, ps) q)"
        by (rule entry_kept [OF _ False])
      then show ?thesis by blast
    qed
  qed
  have "s \<in> set ex \<or> (\<exists>f' g' ps'. (f', g', s, ps') \<in> set (remove1 (f, g, u, ps) q))"
    using assms(1) keep [of s] unfolding inv_front_def by blast
  moreover have "v \<in> set ex \<or> (\<exists>f' g' ps'. (f', g', v, ps') \<in> set (remove1 (f, g, u, ps) q))"
    if "x \<in> set ex" "(v, d) \<in> set (neighbors es x)" for x v d
  proof -
    have "v \<in> set ex \<or> (\<exists>f' g' ps'. (f', g', v, ps') \<in> set q)"
      using assms(1) that unfolding inv_front_def by blast
    then show ?thesis by (rule keep)
  qed
  ultimately show ?thesis
    unfolding inv_front_def by blast
qed

lemma inv_front_expand:
  assumes "inv_front es s q ex"
  shows "inv_front es s (remove1 (f, g, u, ps) q @ successors es t h c ex g u ps) (u # ex)"
proof -
  let ?q' = "remove1 (f, g, u, ps) q @ successors es t h c ex g u ps"
  have keep: "v \<in> set (u # ex) \<or> (\<exists>f' g' ps'. (f', g', v, ps') \<in> set ?q')"
    if "v \<in> set ex \<or> (\<exists>f' g' ps'. (f', g', v, ps') \<in> set q)" for v
  proof (cases "v = u")
    case True
    then show ?thesis by simp
  next
    case False
    show ?thesis
      using that
    proof
      assume "v \<in> set ex"
      then show ?thesis by simp
    next
      assume "\<exists>f' g' ps'. (f', g', v, ps') \<in> set q"
      then obtain f' g' ps' where "(f', g', v, ps') \<in> set q" by blast
      then have "(f', g', v, ps') \<in> set (remove1 (f, g, u, ps) q)"
        by (rule entry_kept [OF _ False])
      then show ?thesis by auto
    qed
  qed
  have new: "v \<in> set (u # ex) \<or> (\<exists>f' g' ps'. (f', g', v, ps') \<in> set ?q')"
    if "(v, d) \<in> set (neighbors es u)" for v d
  proof (cases "v = u \<or> v \<in> set ex")
    case True
    then show ?thesis by auto
  next
    case False
    then have "(g + c u v d + h v t, g + c u v d, v, u # ps)
                 \<in> set (successors es t h c ex g u ps)"
      using that by (auto simp: successors_iff)
    then show ?thesis by auto
  qed
  have "s \<in> set (u # ex) \<or> (\<exists>f g ps. (f, g, s, ps) \<in> set ?q')"
    using assms keep [of s] unfolding inv_front_def by blast
  moreover have "v \<in> set (u # ex) \<or> (\<exists>f g ps. (f, g, v, ps) \<in> set ?q')"
    if "x \<in> set (u # ex)" "(v, d) \<in> set (neighbors es x)" for x v d
  proof (cases "x = u")
    case True
    then show ?thesis using new that by blast
  next
    case False
    then have "x \<in> set ex" using that by simp
    then have "v \<in> set ex \<or> (\<exists>f' g' ps'. (f', g', v, ps') \<in> set q)"
      using assms that(2) unfolding inv_front_def by blast
    then show ?thesis by (rule keep)
  qed
  ultimately show ?thesis
    unfolding inv_front_def by blast
qed

lemma frontier_entry:
  assumes "inv_front es s q ex" "is_walk es P" "hd P \<in> set ex" "last P \<notin> set ex"
  shows "q \<noteq> []"
  using assms(2-4)
proof (induction P rule: induct_list012)
  case 1
  then show ?case by simp
next
  case (2 u)
  then show ?case by simp
next
  case (3 u v rest)
  from "3.prems"(1) obtain d where d: "get_edge_data es u v = Some d"
    and w: "is_walk es (v # rest)"
    by auto
  have n: "(v, d) \<in> set (neighbors es u)"
    by (rule get_edge_data_neighbors [OF d])
  have u: "u \<in> set ex" using "3.prems"(2) by simp
  show ?case
  proof (cases "v \<in> set ex")
    case True
    then show ?thesis using "3.IH"(2) w "3.prems"(3) by simp
  next
    case False
    then have "\<exists>f g ps. (f, g, v, ps) \<in> set q"
      using assms(1) u n unfolding inv_front_def by blast
    then show ?thesis by auto
  qed
qed

lemma astar_loop_complete:
  assumes "inv_front es s queue explored" "t \<notin> set explored" "walk es s P t"
  shows "astar_loop es t h c queue explored \<noteq> None"
proof (rule astar_loop_rule [where I = "\<lambda>q ex. inv_front es s q ex \<and> t \<notin> set ex"
        and Q = "\<lambda>r. r \<noteq> None"])
  show "inv_front es s queue explored \<and> t \<notin> set explored"
    using assms by simp
next
  fix q ex x xs f g u ps
  assume "inv_front es s q ex \<and> t \<notin> set ex" "u \<in> set ex"
  then show "inv_front es s (remove1 (f, g, u, ps) q) ex \<and> t \<notin> set ex"
    using inv_front_skip by blast
next
  fix q ex x xs f g u ps
  assume "inv_front es s q ex \<and> t \<notin> set ex" "u \<noteq> t"
  then show "inv_front es s (remove1 (f, g, u, ps) q @ successors es t h c ex g u ps) (u # ex)
             \<and> t \<notin> set (u # ex)"
    using inv_front_expand by force
next
  fix ps
  show "Some (rev (t # ps)) \<noteq> None" by simp
next
  fix ex
  assume a: "inv_front es s [] ex \<and> t \<notin> set ex"
  then have s: "s \<in> set ex" by (simp add: inv_front_def)
  have "[] \<noteq> ([] :: queue_entry list)"
    using frontier_entry [of es s "[]" ex P] a s assms(3) by (simp add: walk_def)
  then show "None \<noteq> (None :: node list option)" by simp
qed

lemma inv_front_init: "inv_front es s [(f, g, s, [])] []"
  by (simp add: inv_front_def)

lemma edge_cost_neighbor:
  assumes "simple_graph es" "(v, d) \<in> set (neighbors es u)"
  shows "edge_cost es c u v = c u v d"
  using neighbors_get_edge_data [OF assms] by (simp add: edge_cost_def)

lemma frontier_bound_from:
  assumes inv: "inv_opt es c s q ex dst" and nn: "nonneg_cost es c" and sg: "simple_graph es"
    and "is_walk es P" "hd P \<in> set ex" "last P \<notin> set ex"
  shows "\<exists>f g v ps. (f, g, v, ps) \<in> set q \<and> g \<le> dst (hd P) + path_cost es c P"
  using assms(4-6)
proof (induction P rule: induct_list012)
  case 1
  then show ?case by simp
next
  case (2 u)
  then show ?case by simp
next
  case (3 u v rest)
  from "3.prems"(1) obtain d where d: "get_edge_data es u v = Some d"
    and w: "is_walk es (v # rest)"
    by auto
  have n: "(v, d) \<in> set (neighbors es u)"
    by (rule get_edge_data_neighbors [OF d])
  have ec: "edge_cost es c u v = c u v d"
    using d by (simp add: edge_cost_def)
  have u: "u \<in> set ex" using "3.prems"(2) by simp
  have pc: "path_cost es c (u # v # rest) = c u v d + path_cost es c (v # rest)"
    by (simp add: path_cost_simps ec)
  show ?case
  proof (cases "v \<in> set ex")
    case False
    then obtain f g ps where e: "(f, g, v, ps) \<in> set q" "g \<le> dst u + c u v d"
      using inv u n unfolding inv_opt_def by blast
    have "g \<le> dst u + path_cost es c (u # v # rest)"
      using e(2) pc path_cost_nonneg [OF nn, of "v # rest"] by simp
    then show ?thesis using e(1) by auto
  next
    case True
    then obtain f g v' ps where e: "(f, g, v', ps) \<in> set q"
      "g \<le> dst v + path_cost es c (v # rest)"
      using "3.IH"(2) w "3.prems"(3) by auto
    obtain W where W: "walk es s W u" "path_cost es c W = dst u"
      using inv u unfolding inv_opt_def by blast
    have W': "walk es s (W @ [v]) v"
      by (rule walk_snoc [OF W(1) n])
    have "W \<noteq> []" "last W = u" using W(1) by (auto simp: walk_def)
    then have "path_cost es c (W @ [v]) = dst u + c u v d"
      using W(2) ec by (simp add: path_cost_snoc)
    moreover have "dst v \<le> path_cost es c (W @ [v])"
      using inv True W' unfolding inv_opt_def by blast
    ultimately have "g \<le> dst u + path_cost es c (u # v # rest)"
      using e(2) pc by simp
    then show ?thesis using e(1) by auto
  qed
qed

lemma frontier_bound:
  assumes inv: "inv_opt es c s q ex dst" and nn: "nonneg_cost es c" and sg: "simple_graph es"
    and w: "walk es s P z" and z: "z \<notin> set ex"
  shows "\<exists>f g v ps. (f, g, v, ps) \<in> set q \<and> g \<le> path_cost es c P"
proof (cases "s \<in> set ex")
  case True
  have "walk es s [s] s" by (simp add: walk_def)
  then have "dst s \<le> path_cost es c [s]"
    using inv True unfolding inv_opt_def by blast
  then have ds: "dst s \<le> 0" by (simp add: path_cost_simps)
  obtain f g v ps where e: "(f, g, v, ps) \<in> set q" "g \<le> dst (hd P) + path_cost es c P"
    using frontier_bound_from [OF inv nn sg, of P] w z True by (auto simp: walk_def)
  have "hd P = s" using w by (simp add: walk_def)
  then have "g \<le> path_cost es c P" using e(2) ds by simp
  then show ?thesis using e(1) by blast
next
  case False
  then obtain f ps where "(f, 0, s, ps) \<in> set q"
    using inv unfolding inv_opt_def by blast
  then show ?thesis using path_cost_nonneg [OF nn, of P] by blast
qed

lemma inv_opt_skip:
  assumes inv: "inv_opt es c s q ex dst" and u: "u \<in> set ex"
  shows "inv_opt es c s (remove1 (f, g, u, ps) q) ex dst"
proof -
  let ?q' = "remove1 (f, g, u, ps) q"
  have sub: "set ?q' \<subseteq> set q" by (rule set_remove1_subset)
  have e: "f' = g' \<and> g' = path_cost es c (rev (u' # ps'))"
    if "(f', g', u', ps') \<in> set ?q'" for f' g' u' ps'
    using inv that sub unfolding inv_opt_def by blast
  have s: "s \<in> set ex \<or> (\<exists>f ps. (f, 0, s, ps) \<in> set ?q')"
  proof (cases "s \<in> set ex")
    case True
    then show ?thesis by simp
  next
    case False
    then obtain f0 ps0 where "(f0, 0, s, ps0) \<in> set q"
      using inv unfolding inv_opt_def by blast
    moreover have "s \<noteq> u" using False u by auto
    ultimately have "(f0, 0, s, ps0) \<in> set ?q'" by (rule entry_kept)
    then show ?thesis by blast
  qed
  have n: "v \<in> set ex \<or> (\<exists>f' g' ps'. (f', g', v, ps') \<in> set ?q' \<and> g' \<le> dst x + c x v d)"
    if xn: "x \<in> set ex" "(v, d) \<in> set (neighbors es x)" for x v d
  proof (cases "v \<in> set ex")
    case True
    then show ?thesis by simp
  next
    case False
    then obtain f' g' ps' where o: "(f', g', v, ps') \<in> set q" "g' \<le> dst x + c x v d"
      using inv xn unfolding inv_opt_def by blast
    have "v \<noteq> u" using False u by auto
    with o(1) have "(f', g', v, ps') \<in> set ?q'" by (rule entry_kept)
    then show ?thesis using o(2) by blast
  qed
  show ?thesis
    unfolding inv_opt_def
  proof (intro conjI allI impI)
    fix f' g' u' ps'
    assume "(f', g', u', ps') \<in> set ?q'"
    then show "f' = g'" "g' = path_cost es c (rev (u' # ps'))" using e by blast+
  next
    show "s \<in> set ex \<or> (\<exists>f ps. (f, 0, s, ps) \<in> set ?q')" by (rule s)
  next
    fix x
    assume "x \<in> set ex"
    then show "\<exists>W. walk es s W x \<and> path_cost es c W = dst x"
      using inv unfolding inv_opt_def by blast
  next
    fix x P
    assume "x \<in> set ex" "walk es s P x"
    then show "dst x \<le> path_cost es c P"
      using inv unfolding inv_opt_def by blast
  next
    fix x v d
    assume "x \<in> set ex" "(v, d) \<in> set (neighbors es x)"
    then show "v \<in> set ex \<or> (\<exists>f' g' ps'. (f', g', v, ps') \<in> set ?q' \<and> g' \<le> dst x + c x v d)"
      by (rule n)
  qed
qed

lemma inv_opt_expand:
  assumes inv: "inv_opt es c s q ex dst" and val: "inv_valid es s q ex"
    and nn: "nonneg_cost es c" and sg: "simple_graph es"
    and q: "q = x # xs" and m: "min_entry x xs = (f, g, u, ps)" and u: "u \<notin> set ex"
  shows "inv_opt es c s (remove1 (f, g, u, ps) q @ successors es t (\<lambda>u v. 0) c ex g u ps)
           (u # ex) (dst(u := g))"
proof -
  let ?succ = "successors es t (\<lambda>u v. 0) c ex g u ps"
  let ?q' = "remove1 (f, g, u, ps) q @ ?succ"
  let ?dst = "dst(u := g)"
  have mem: "(f, g, u, ps) \<in> set q" by (rule min_entry_mem [OF q m])
  have fg: "f = g" and gc: "g = path_cost es c (rev (u # ps))"
    using inv mem unfolding inv_opt_def by blast+
  have wu: "walk es s (rev (u # ps)) u"
    using val mem unfolding inv_valid_def by blast
  have least: "g \<le> g'" if "(f', g', u', ps') \<in> set q" for f' g' u' ps'
  proof -
    have "fst (min_entry x xs) \<le> fst (f', g', u', ps')"
      using that q by (intro min_entry_le) simp
    moreover have "f' = g'" using inv that unfolding inv_opt_def by blast
    ultimately show ?thesis using m fg by simp
  qed
  have e: "f' = g' \<and> g' = path_cost es c (rev (u' # ps'))"
    if "(f', g', u', ps') \<in> set ?q'" for f' g' u' ps'
  proof -
    from that consider "(f', g', u', ps') \<in> set (remove1 (f, g, u, ps) q)"
      | "(f', g', u', ps') \<in> set ?succ" by auto
    then show ?thesis
    proof cases
      case 1
      then have "(f', g', u', ps') \<in> set q" using set_remove1_subset by fast
      then show ?thesis using inv unfolding inv_opt_def by blast
    next
      case 2
      then obtain d where d: "(u', d) \<in> set (neighbors es u)" "f' = g + c u u' d"
        "g' = g + c u u' d" "ps' = u # ps"
        by (auto simp: successors_iff)
      have "path_cost es c (rev (u # ps) @ [u'])
              = path_cost es c (rev (u # ps)) + edge_cost es c u u'"
        by (subst path_cost_snoc) simp_all
      then have "path_cost es c (rev (u' # ps')) = g + c u u' d"
        using d(4) gc edge_cost_neighbor [OF sg d(1), of c] by simp
      then show ?thesis using d by simp
    qed
  qed
  have s: "s \<in> set (u # ex) \<or> (\<exists>f ps. (f, 0, s, ps) \<in> set ?q')"
  proof (cases "s \<in> set ex \<or> s = u")
    case True
    then show ?thesis by auto
  next
    case False
    then obtain f0 ps0 where "(f0, 0, s, ps0) \<in> set q"
      using inv unfolding inv_opt_def by blast
    moreover have "s \<noteq> u" using False by simp
    ultimately have "(f0, 0, s, ps0) \<in> set (remove1 (f, g, u, ps) q)" by (rule entry_kept)
    then show ?thesis by auto
  qed
  have bound_u: "g \<le> path_cost es c P" if wP: "walk es s P u" for P
  proof -
    obtain f' g' v' ps' where "(f', g', v', ps') \<in> set q" "g' \<le> path_cost es c P"
      using frontier_bound [OF inv nn sg wP u] by blast
    then show ?thesis using least by force
  qed
  have n_old: "v \<in> set (u # ex)
        \<or> (\<exists>f' g' ps'. (f', g', v, ps') \<in> set ?q' \<and> g' \<le> dst y + c y v d)"
    if yn: "y \<in> set ex" "(v, d) \<in> set (neighbors es y)" for y v d
  proof (cases "v \<in> set ex \<or> v = u")
    case True
    then show ?thesis by auto
  next
    case False
    then obtain f' g' ps' where o: "(f', g', v, ps') \<in> set q" "g' \<le> dst y + c y v d"
      using inv yn unfolding inv_opt_def by blast
    have "v \<noteq> u" using False by simp
    with o(1) have "(f', g', v, ps') \<in> set (remove1 (f, g, u, ps) q)" by (rule entry_kept)
    then show ?thesis using o(2) by auto
  qed
  have n_new: "v \<in> set (u # ex)
        \<or> (\<exists>f' g' ps'. (f', g', v, ps') \<in> set ?q' \<and> g' \<le> g + c u v d)"
    if "(v, d) \<in> set (neighbors es u)" for v d
  proof (cases "v \<in> set ex \<or> v = u")
    case True
    then show ?thesis by auto
  next
    case False
    then have "(g + c u v d + 0, g + c u v d, v, u # ps) \<in> set ?succ"
      using that by (auto simp: successors_iff)
    then show ?thesis by auto
  qed
  show ?thesis
    unfolding inv_opt_def
  proof (intro conjI allI impI)
    fix f' g' u' ps'
    assume "(f', g', u', ps') \<in> set ?q'"
    then show "f' = g'" "g' = path_cost es c (rev (u' # ps'))" using e by blast+
  next
    show "s \<in> set (u # ex) \<or> (\<exists>f ps. (f, 0, s, ps) \<in> set ?q')" by (rule s)
  next
    fix y
    assume y: "y \<in> set (u # ex)"
    show "\<exists>W. walk es s W y \<and> path_cost es c W = ?dst y"
    proof (cases "y = u")
      case True
      then show ?thesis using wu gc by auto
    next
      case False
      then have "y \<in> set ex" using y by simp
      then show ?thesis using inv False unfolding inv_opt_def by auto
    qed
  next
    fix y P
    assume y: "y \<in> set (u # ex)" and P: "walk es s P y"
    show "?dst y \<le> path_cost es c P"
    proof (cases "y = u")
      case True
      then show ?thesis using bound_u P by simp
    next
      case False
      then have "y \<in> set ex" using y by simp
      then show ?thesis using inv False P unfolding inv_opt_def by auto
    qed
  next
    fix y v d
    assume y: "y \<in> set (u # ex)" and n: "(v, d) \<in> set (neighbors es y)"
    show "v \<in> set (u # ex)
        \<or> (\<exists>f' g' ps'. (f', g', v, ps') \<in> set ?q' \<and> g' \<le> ?dst y + c y v d)"
    proof (cases "y = u")
      case True
      then show ?thesis using n_new n by simp
    next
      case False
      then have "y \<in> set ex" using y by simp
      then show ?thesis using n_old [OF _ n] False by simp
    qed
  qed
qed

lemma inv_opt_init: "inv_opt es c s [(0, 0, s, [])] [] dst"
  by (simp add: inv_opt_def path_cost_simps)

lemma astar_loop_optimal:
  assumes nn: "nonneg_cost es c" and sg: "simple_graph es"
    and res: "astar_loop es t (\<lambda>u v. 0) c [(0, 0, s, [])] [] = Some p"
    and P: "walk es s P t"
  shows "path_cost es c p \<le> path_cost es c P"
proof -
  let ?I = "\<lambda>q ex. inv_valid es s q ex \<and> (\<exists>dst. inv_opt es c s q ex dst) \<and> t \<notin> set ex"
  let ?Q = "\<lambda>r. \<forall>p. r = Some p \<longrightarrow> path_cost es c p \<le> path_cost es c P"
  have "?Q (astar_loop es t (\<lambda>u v. 0) c [(0, 0, s, [])] [])"
  proof (rule astar_loop_rule [where I = ?I and Q = ?Q])
    show "?I [(0, 0, s, [])] []"
      using inv_valid_init [of es s 0 0] inv_opt_init [of es c s "\<lambda>x. 0"]
      by (intro conjI exI [of _ "\<lambda>x. 0"]) simp_all
  next
    fix q ex x xs f g u ps
    assume "?I q ex" "u \<in> set ex"
    then show "?I (remove1 (f, g, u, ps) q) ex"
      using inv_valid_skip inv_opt_skip by blast
  next
    fix q ex x xs f g u ps
    assume a: "?I q ex" "q = x # xs" "min_entry x xs = (f, g, u, ps)" "u \<noteq> t" "u \<notin> set ex"
    then obtain dst where d: "inv_opt es c s q ex dst" by blast
    have "inv_valid es s (remove1 (f, g, u, ps) q @ successors es t (\<lambda>u v. 0) c ex g u ps)
            (u # ex)"
      using inv_valid_expand [OF _ min_entry_mem [OF a(2,3)] a(5)] a(1) by blast
    moreover have "inv_opt es c s
        (remove1 (f, g, u, ps) q @ successors es t (\<lambda>u v. 0) c ex g u ps) (u # ex) (dst(u := g))"
      using inv_opt_expand [OF d _ nn sg a(2,3,5)] a(1) by blast
    ultimately show "?I (remove1 (f, g, u, ps) q @ successors es t (\<lambda>u v. 0) c ex g u ps)
                       (u # ex)"
      using a(1,4) by auto
  next
    fix q ex x xs f g ps
    assume a: "?I q ex" "q = x # xs" "min_entry x xs = (f, g, t, ps)"
    then obtain dst where d: "inv_opt es c s q ex dst" by blast
    have mem: "(f, g, t, ps) \<in> set q" by (rule min_entry_mem [OF a(2,3)])
    have fg: "f = g" and gc: "g = path_cost es c (rev (t # ps))"
      using d mem unfolding inv_opt_def by blast+
    obtain f' g' v' ps' where o: "(f', g', v', ps') \<in> set q" "g' \<le> path_cost es c P"
      using frontier_bound [OF d nn sg P] a(1) by blast
    have "fst (min_entry x xs) \<le> fst (f', g', v', ps')"
      using o(1) a(2) by (intro min_entry_le) simp
    moreover have "f' = g'" using d o(1) unfolding inv_opt_def by blast
    ultimately have "g \<le> g'" using a(3) fg by simp
    then show "?Q (Some (rev (t # ps)))" using o(2) gc by simp
  next
    fix ex
    show "?Q None" by simp
  qed
  then show ?thesis using res by blast
qed

lemma astar_path_walk:
  assumes "astar_path ns es source target h cost = Inr p"
  shows "walk es source p target \<and> distinct p"
proof -
  have "astar_loop es target h cost [(h source target, 0, source, [])] [] = Some p"
    using assms by (auto simp: astar_path_def split: if_splits option.splits)
  then show ?thesis
    by (rule astar_loop_valid [OF inv_valid_init])
qed

lemma astar_path_complete:
  assumes "source \<in> set ns" "target \<in> set ns" "walk es source q target"
  shows "\<exists>p. astar_path ns es source target h cost = Inr p"
proof -
  have "astar_loop es target h cost [(h source target, 0, source, [])] [] \<noteq> None"
    by (rule astar_loop_complete [OF inv_front_init _ assms(3)]) simp
  then show ?thesis
    using assms(1,2) by (auto simp: astar_path_def)
qed

text \<open>
  C1. On a graph with one edge per node pair and a cost function that is non-negative on
  its edges, for a source and a target of the graph that some path joins, the
  single-path search with the zero heuristic returns a path from source to target, without
  repeated nodes, whose total cost is at most that of every path from source to target
  (in particular of every simple path).
\<close>

theorem astar_path_optimal:
  assumes "source \<in> set ns" "target \<in> set ns" "simple_graph es" "nonneg_cost es cost"
    "walk es source q target"
  shows "\<exists>p. astar_path ns es source target (\<lambda>u v. 0) cost = Inr p
             \<and> walk es source p target \<and> distinct p
             \<and> (\<forall>q'. walk es source q' target \<longrightarrow>
                   path_cost es cost p \<le> path_cost es cost q')"
proof -
  obtain p where p: "astar_path ns es source target (\<lambda>u v. 0) cost = Inr p"
    using astar_path_complete [OF assms(1,2,5)] by blast
  then have l: "astar_loop es target (\<lambda>u v. 0) cost [(0, 0, source, [])] [] = Some p"
    by (auto simp: astar_path_def split: if_splits option.splits)
  have "path_cost es cost p \<le> path_cost es cost q'" if "walk es source q' target" for q'
    by (rule astar_loop_optimal [OF assms(4,3) l that])
  then show ?thesis
    using p astar_path_walk [OF p] by blast
qed

lemma abc_edges_eq:
  "abc_edges = [(''A'', ''B'', abc_edge ''e1''), (''B'', ''C'', abc_edge ''e2'')]"
  by (simp add: abc_edges_def graph_edges_def abc_start_def abc_graph_def)

theorem astar_path_optimal_witness:
  "astar_path [''A'', ''B'', ''C''] abc_edges ''A'' ''C'' (\<lambda>u v. 0) (\<lambda>u v data. length_m data)
     = Inr [''A'', ''B'', ''C'']
   \<and> walk abc_edges ''A'' [''A'', ''B'', ''A'', ''B'', ''C''] ''C''
   \<and> path_cost abc_edges (\<lambda>u v data. length_m data) [''A'', ''B'', ''C'']
       \<le> path_cost abc_edges (\<lambda>u v data. length_m data) [''A'', ''B'', ''A'', ''B'', ''C'']"
proof -
  have e: "astar_path [''A'', ''B'', ''C''] abc_edges ''A'' ''C'' (\<lambda>u v. 0)
             (\<lambda>u v data. length_m data) = Inr [''A'', ''B'', ''C'']"
    by (simp add: abc_edges_eq astar_path_def astar_loop.simps successors_def neighbors_def
        abc_edge_def)
  have s: "simple_graph abc_edges"
    by (simp add: abc_edges_eq simple_graph_def get_edge_data_def)
  have n: "nonneg_cost abc_edges (\<lambda>u v data. length_m data)"
    by (simp add: abc_edges_eq nonneg_cost_def abc_edge_def)
  have w: "walk abc_edges ''A'' [''A'', ''B'', ''A'', ''B'', ''C''] ''C''"
    by (simp add: abc_edges_eq walk_def get_edge_data_def)
  from astar_path_optimal [of "''A''" "[''A'', ''B'', ''C'']" "''C''" abc_edges
      "\<lambda>u v data. length_m data", OF _ _ s n w] e w
  show ?thesis by auto
qed

section \<open>The enumeration of alternatives\<close>

lemma is_walk_append:
  assumes "xs \<noteq> []" "ys \<noteq> []"
  shows "is_walk es (xs @ ys)
           \<longleftrightarrow> is_walk es xs \<and> get_edge_data es (last xs) (hd ys) \<noteq> None \<and> is_walk es ys"
  using assms
proof (induction xs rule: induct_list012)
  case 1
  then show ?case by simp
next
  case (2 x)
  then show ?case by (cases ys) simp_all
next
  case (3 x y zs)
  then show ?case by simp
qed

lemma is_walk_take:
  assumes "is_walk es p" "0 < i"
  shows "is_walk es (take i p)"
proof (cases "i < length p")
  case True
  then have "take i p \<noteq> []" "drop i p \<noteq> []" using assms(2) by auto
  then show ?thesis
    using is_walk_append [of "take i p" "drop i p" es] assms(1) by simp
next
  case False
  then show ?thesis using assms(1) by simp
qed


lemma find_Some_mem: "find P xs = Some x \<Longrightarrow> P x \<and> x \<in> set xs"
  by (induction xs) (auto split: if_splits)

lemma find_filter:
  assumes "\<And>x. x \<in> set xs \<Longrightarrow> P x \<Longrightarrow> Q x"
  shows "find P (filter Q xs) = find P xs"
  using assms by (induction xs) auto

lemma without_ignored_eq:
  "without_ignored es ns ies = filter (\<lambda>(a, b, d). kept ns ies a b) es"
  by (simp add: without_ignored_def kept_def)

lemma kept_sym: "kept ns ies a b = kept ns ies b a"
  by (auto simp: kept_def)

lemma get_edge_data_kept:
  assumes "kept ns ies u v"
  shows "get_edge_data (without_ignored es ns ies) u v = get_edge_data es u v"
proof -
  have "find (\<lambda>(a, b, d). (a = u \<and> b = v) \<or> (a = v \<and> b = u))
          (filter (\<lambda>(a, b, d). kept ns ies a b) es)
        = find (\<lambda>(a, b, d). (a = u \<and> b = v) \<or> (a = v \<and> b = u)) es"
    by (rule find_filter) (use assms kept_sym in auto)
  then show ?thesis
    by (simp add: get_edge_data_def without_ignored_eq)
qed

lemma get_edge_data_without_ignored:
  assumes "get_edge_data (without_ignored es ns ies) u v = Some d"
  shows "kept ns ies u v" "get_edge_data es u v = Some d"
proof -
  from assms obtain a b where
    f: "find (\<lambda>(a, b, d). (a = u \<and> b = v) \<or> (a = v \<and> b = u))
          (filter (\<lambda>(a, b, d). kept ns ies a b) es) = Some (a, b, d)"
    by (auto simp: get_edge_data_def without_ignored_eq)
  from find_Some_mem [OF f]
  have "kept ns ies a b" "(a = u \<and> b = v) \<or> (a = v \<and> b = u)"
    by auto
  then show k: "kept ns ies u v" using kept_sym by auto
  show "get_edge_data es u v = Some d"
    using get_edge_data_kept [OF k, of es] assms by simp
qed

lemma is_walk_without_ignored:
  "is_walk (without_ignored es ns ies) p \<longleftrightarrow> is_walk es p \<and> steps_kept ns ies p"
proof (induction p rule: induct_list012)
  case 1
  then show ?case by simp
next
  case (2 x)
  then show ?case by simp
next
  case (3 x y zs)
  show ?case
  proof (cases "kept ns ies x y")
    case True
    then show ?thesis using 3 get_edge_data_kept [OF True, of es] by simp
  next
    case False
    then have "get_edge_data (without_ignored es ns ies) x y = None"
      using get_edge_data_without_ignored(1) [of es ns ies x y] by (metis not_Some_eq)
    then show ?thesis using False by simp
  qed
qed






lemma next_step_iff:
  "(a, b) \<in> set (case l of x # y # rest \<Rightarrow> [(x, y)] | _ \<Rightarrow> []) \<longleftrightarrow> (\<exists>rest. l = a # b # rest)"
proof (cases l)
  case Nil
  then show ?thesis by simp
next
  case (Cons x xs)
  then show ?thesis by (cases xs) auto
qed

lemma ignore_edges_iff:
  "(a, b) \<in> set (ignore_edges_of A i r)
     \<longleftrightarrow> (\<exists>p \<in> set A. take i p = r \<and> (\<exists>rest. drop (i - 1) p = a # b # rest))"
proof -
  have "(a, b) \<in> set (ignore_edges_of A i r)
        \<longleftrightarrow> (\<exists>p \<in> set A. take i p = r
              \<and> (a, b) \<in> set (case drop (i - 1) p of x # y # rest \<Rightarrow> [(x, y)] | _ \<Rightarrow> []))"
    unfolding ignore_edges_of_def by (simp split: if_splits) blast
  then show ?thesis unfolding next_step_iff .
qed

lemma deviation_iff:
  "(c, r) \<in> set (deviation es t cost A prev i)
     \<longleftrightarrow> (\<exists>spur. astar_loop (without_ignored es (butlast (take i prev))
                             (ignore_edges_of A i (take i prev)))
                  t (\<lambda>u v. 0) cost [(0, 0, last (take i prev), [])] [] = Some spur
            \<and> r = butlast (take i prev) @ spur \<and> c = path_cost es cost r)"
  by (auto simp: deviation_def Let_def split: option.splits)

lemma deviations_iff:
  "(c, r) \<in> set (deviations es t cost A prev)
     \<longleftrightarrow> (\<exists>i spur. 1 \<le> i \<and> i < length prev
            \<and> astar_loop (without_ignored es (butlast (take i prev))
                             (ignore_edges_of A i (take i prev)))
                  t (\<lambda>u v. 0) cost [(0, 0, last (take i prev), [])] [] = Some spur
            \<and> r = butlast (take i prev) @ spur \<and> c = path_cost es cost r)"
proof -
  have "(c, r) \<in> set (deviations es t cost A prev)
        \<longleftrightarrow> (\<exists>i. 1 \<le> i \<and> i < length prev \<and> (c, r) \<in> set (deviation es t cost A prev i))"
    unfolding deviations_def by auto
  then show ?thesis unfolding deviation_iff by blast
qed

lemma steps_kept_nodes:
  assumes "steps_kept ns ies p"
  shows "set (tl p) \<inter> set ns = {}"
  using assms
proof (induction p rule: induct_list012)
  case 1
  then show ?case by simp
next
  case (2 x)
  then show ?case by simp
next
  case (3 x y zs)
  then show ?case by (auto simp: kept_def)
qed

lemma deviation_simple_path:
  assumes prev: "simple_path es s prev t"
    and i: "1 \<le> i" "i < length prev"
    and spur: "astar_loop (without_ignored es (butlast (take i prev))
                             (ignore_edges_of A i (take i prev)))
                  t h cost [(f, g, last (take i prev), [])] [] = Some spur"
  shows "simple_path es s (butlast (take i prev) @ spur) t"
    and "butlast (take i prev) @ spur \<notin> set A"
    and "take i (butlast (take i prev) @ spur) = take i prev"
    and "is_walk (without_ignored es (butlast (take i prev))
                             (ignore_edges_of A i (take i prev))) spur"
    and "hd spur = last (take i prev)"
proof -
  let ?rt = "take i prev"
  let ?ns = "butlast ?rt"
  let ?ies = "ignore_edges_of A i ?rt"
  let ?es' = "without_ignored es ?ns ?ies"
  let ?r = "?ns @ spur"
  have pw: "is_walk es prev" "hd prev = s" "last prev = t" "distinct prev"
    using prev by (auto simp: simple_path_def walk_def)
  have rt_ne: "?rt \<noteq> []" using i by auto
  have len_rt: "length ?rt = i" using i by simp
  have rt_eq: "?rt = ?ns @ [last ?rt]" using rt_ne by simp
  have last_rt: "last ?rt = prev ! (i - 1)"
    using i rt_ne len_rt by (simp add: last_conv_nth)
  have sw: "walk ?es' (last ?rt) spur t" and sd: "distinct spur"
    using astar_loop_valid [OF inv_valid_init spur] by simp_all
  then have s_ne: "spur \<noteq> []" and s_hd: "hd spur = last ?rt" and s_last: "last spur = t"
    and s_walk': "is_walk ?es' spur"
    by (auto simp: walk_def)
  show "is_walk ?es' spur" by (rule s_walk')
  show "hd spur = last ?rt" by (rule s_hd)
  have s_walk: "is_walk es spur" and s_kept: "steps_kept ?ns ?ies spur"
    using s_walk' by (simp_all add: is_walk_without_ignored)
  have spur_eq: "spur = last ?rt # tl spur"
    using s_ne s_hd by (metis list.collapse)
  have r_eq: "?r = ?rt @ tl spur"
    using rt_eq spur_eq by (metis append.assoc append_Cons append_Nil)
  have d_rt: "distinct ?rt" using pw(4) by (rule distinct_take)
  have "last ?rt \<notin> set ?ns"
    using d_rt rt_eq by (metis distinct_append distinct.simps(2) disjoint_iff list.set_intros(1)
        not_distinct_conv_prefix)
  then have disj: "set ?ns \<inter> set spur = {}"
    using steps_kept_nodes [OF s_kept] spur_eq
    by (metis Int_commute disjoint_insert(1) list.simps(15))
  have dist: "distinct ?r"
    using d_rt sd disj by (simp add: distinct_butlast)
  have rt_walk: "is_walk es ?rt"
    using is_walk_take [OF pw(1)] i by simp
  have walk_r: "is_walk es ?r"
  proof (cases "tl spur = []")
    case True
    then show ?thesis using r_eq rt_walk by simp
  next
    case False
    have "is_walk es (last ?rt # tl spur)" using s_walk spur_eq by simp
    then have "get_edge_data es (last ?rt) (hd (tl spur)) \<noteq> None" "is_walk es (tl spur)"
      using False by (cases "tl spur"; simp)+
    then show ?thesis
      using r_eq rt_walk is_walk_append [OF rt_ne False, of es] by simp
  qed
  have hd_r: "hd ?r = s"
    using r_eq rt_ne pw(2) i by (simp add: hd_take)
  have last_r: "last ?r = t"
    using s_ne s_last by simp
  show "simple_path es s ?r t"
    using walk_r hd_r last_r dist by (simp add: simple_path_def walk_def)
  show take_r: "take i ?r = ?rt"
    using r_eq len_rt by simp
  have "last ?rt \<noteq> t"
  proof
    assume "last ?rt = t"
    moreover have "last prev = prev ! (length prev - 1)"
      using i by (intro last_conv_nth) auto
    ultimately have "prev ! (i - 1) = prev ! (length prev - 1)"
      using last_rt pw(3) by simp
    then have "i - 1 = length prev - 1"
      using pw(4) i by (simp add: nth_eq_iff_index_eq)
    then show False using i by simp
  qed
  then have "tl spur \<noteq> []"
    using spur_eq s_last by (metis last.simps)
  then obtain u1 rest where tl: "tl spur = u1 # rest" by (cases "tl spur") auto
  have spur2: "spur = last ?rt # u1 # rest" using spur_eq tl by simp
  have k: "kept ?ns ?ies (last ?rt) u1"
    using s_kept spur2 by (metis steps_kept.simps(1))
  show "?r \<notin> set A"
  proof
    assume mem: "?r \<in> set A"
    have "drop (i - 1) ?r = spur"
      using len_rt rt_ne by (simp add: length_butlast)
    then have "(last ?rt, u1) \<in> set ?ies"
      using mem take_r spur2 unfolding ignore_edges_iff by metis
    then show False using k by (simp add: kept_def)
  qed
qed

lemma push_all_Nil: "push_all B [] = B"
  by (simp add: push_all_def)

lemma push_all_Cons:
  "push_all B (c # cs) = push_all (if snd c \<in> snd ` set B then B else B @ [c]) cs"
  by (simp add: push_all_def)

lemma push_all_props:
  "set B \<subseteq> set (push_all B cs)
   \<and> set (push_all B cs) \<subseteq> set B \<union> set cs
   \<and> snd ` set cs \<subseteq> snd ` set (push_all B cs)
   \<and> (distinct (map snd B) \<longrightarrow> distinct (map snd (push_all B cs)))"
proof (induction cs arbitrary: B)
  case Nil
  then show ?case by (simp add: push_all_Nil)
next
  case (Cons c cs)
  define B1 where "B1 = (if snd c \<in> snd ` set B then B else B @ [c])"
  have step: "push_all B (c # cs) = push_all B1 cs"
    by (simp add: push_all_Cons B1_def)
  note ih = Cons.IH [of B1]
  have a1: "set B \<subseteq> set B1" and a2: "set B1 \<subseteq> set B \<union> {c}"
    and a3: "snd c \<in> snd ` set B1"
    and a4: "distinct (map snd B) \<longrightarrow> distinct (map snd B1)"
    unfolding B1_def by auto
  have 1: "set B \<subseteq> set (push_all B (c # cs))"
    unfolding step using ih a1 by blast
  have 2: "set (push_all B (c # cs)) \<subseteq> set B \<union> set (c # cs)"
  proof -
    have "set (push_all B1 cs) \<subseteq> set B1 \<union> set cs" using ih by blast
    then show ?thesis unfolding step using a2 by auto
  qed
  have 3: "snd ` set (c # cs) \<subseteq> snd ` set (push_all B (c # cs))"
  proof -
    have "snd ` set cs \<subseteq> snd ` set (push_all B1 cs)"
      and "set B1 \<subseteq> set (push_all B1 cs)" using ih by blast+
    then show ?thesis unfolding step using a3 by auto
  qed
  have 4: "distinct (map snd B) \<longrightarrow> distinct (map snd (push_all B (c # cs)))"
    unfolding step using ih a4 by blast
  show ?case using 1 2 3 4 by blast
qed

lemma distinct_map_remove1:
  assumes "distinct (map f xs)"
  shows "distinct (map f (remove1 x xs))" "x \<in> set xs \<Longrightarrow> f x \<notin> f ` set (remove1 x xs)"
proof -
  show "distinct (map f (remove1 x xs))"
  proof (cases "x \<in> set xs")
    case False
    then show ?thesis using assms by (simp add: remove1_idem)
  next
    case True
    obtain ys zs where xs: "xs = ys @ x # zs" "x \<notin> set ys"
      using split_list_first [OF True] by blast
    have r: "remove1 x xs = ys @ zs"
      using xs by (simp add: remove1_append)
    have "distinct (map f (ys @ zs))"
      using assms unfolding xs(1) by auto
    then show ?thesis unfolding r .
  qed
  show "f x \<notin> f ` set (remove1 x xs)" if mem: "x \<in> set xs"
  proof -
    obtain ys zs where xs: "xs = ys @ x # zs" "x \<notin> set ys"
      using split_list_first [OF mem] by blast
    have r: "remove1 x xs = ys @ zs"
      using xs by (simp add: remove1_append)
    have "f x \<notin> f ` set ys \<union> f ` set zs"
      using assms unfolding xs(1) by auto
    then show ?thesis unfolding r by auto
  qed
qed

lemma pop_next_cases:
  obtains "listB g = []" "pop_next g = None"
  | c p where "(c, p) \<in> set (listB g)" "\<forall>e \<in> set (listB g). c \<le> fst e"
      "pop_next g = Some (p, \<lparr>listA = listA g @ [p], listB = remove1 (c, p) (listB g),
                                prev_path = Some p\<rparr>)"
proof (cases "listB g")
  case Nil
  then show ?thesis using that(1) by (simp add: pop_next_def)
next
  case (Cons x xs)
  obtain c p where m: "min_entry x xs = (c, p)" by (cases "min_entry x xs")
  have "(c, p) \<in> set (listB g)"
    using min_entry_in [of x xs] m Cons by simp
  moreover have "\<forall>e \<in> set (listB g). c \<le> fst e"
    using min_entry_le [of _ x xs] m Cons by auto
  moreover have "pop_next g = Some (p, \<lparr>listA = listA g @ [p],
      listB = remove1 (c, p) (listB g), prev_path = Some p\<rparr>)"
    using m Cons by (simp add: pop_next_def)
  ultimately show ?thesis using that(2) by blast
qed

lemma buf_ok_push:
  assumes "buf_ok es s t cost A B"
    and "\<And>c r. (c, r) \<in> set cs \<Longrightarrow>
           simple_path es s r t \<and> c = path_cost es cost r \<and> r \<notin> set A"
  shows "buf_ok es s t cost A (push_all B cs)"
proof -
  note pp = push_all_props [of B cs]
  have "simple_path es s p t \<and> c = path_cost es cost p \<and> p \<notin> set A"
    if m: "(c, p) \<in> set (push_all B cs)" for c p
  proof -
    from m pp have "(c, p) \<in> set B \<or> (c, p) \<in> set cs" by blast
    then show ?thesis using assms unfolding buf_ok_def by blast
  qed
  moreover have "distinct (map snd (push_all B cs))"
    using pp assms(1) unfolding buf_ok_def by blast
  ultimately show ?thesis
    using assms(1) unfolding buf_ok_def by blast
qed

lemma buf_ok_pop:
  assumes ok: "buf_ok es s t cost (listA g) (listB g)" and pop: "pop_next g = Some (p, g')"
  shows "buf_ok es s t cost (listA g') (listB g')"
    and "listA g' = listA g @ [p]"
    and "prev_path g' = Some p"
    and "listB g' = remove1 (path_cost es cost p, p) (listB g)"
    and "(path_cost es cost p, p) \<in> set (listB g)"
    and "\<forall>e \<in> set (listB g). path_cost es cost p \<le> fst e"
    and "simple_path es s p t"
    and "p \<notin> set (listA g)"
proof -
  from pop obtain c where c: "(c, p) \<in> set (listB g)" "\<forall>e \<in> set (listB g). c \<le> fst e"
    and g': "g' = \<lparr>listA = listA g @ [p], listB = remove1 (c, p) (listB g),
                    prev_path = Some p\<rparr>"
    by (cases g rule: pop_next_cases) auto
  have pc: "simple_path es s p t" "c = path_cost es cost p" "p \<notin> set (listA g)"
    using ok c(1) unfolding buf_ok_def by blast+
  show "listA g' = listA g @ [p]" "prev_path g' = Some p" by (simp_all add: g')
  show "listB g' = remove1 (path_cost es cost p, p) (listB g)" using pc(2) by (simp add: g')
  show "(path_cost es cost p, p) \<in> set (listB g)" using c(1) pc(2) by simp
  show "\<forall>e \<in> set (listB g). path_cost es cost p \<le> fst e" using c(2) pc(2) by simp
  show "simple_path es s p t" by (rule pc(1))
  show "p \<notin> set (listA g)" by (rule pc(3))
  have dB: "distinct (map snd (listB g))" using ok unfolding buf_ok_def by blast
  have d1: "distinct (map snd (remove1 (c, p) (listB g)))"
    by (rule distinct_map_remove1(1) [OF dB])
  have d2: "p \<notin> snd ` set (remove1 (c, p) (listB g))"
    using distinct_map_remove1(2) [OF dB c(1)] by simp
  have sub: "set (remove1 (c, p) (listB g)) \<subseteq> set (listB g)"
    by (rule set_remove1_subset)
  have B': "simple_path es s p' t \<and> c' = path_cost es cost p' \<and> p' \<notin> set (listA g @ [p])"
    if m: "(c', p') \<in> set (remove1 (c, p) (listB g))" for c' p'
  proof -
    have "(c', p') \<in> set (listB g)" using m sub by blast
    then have "simple_path es s p' t \<and> c' = path_cost es cost p' \<and> p' \<notin> set (listA g)"
      using ok unfolding buf_ok_def by blast
    moreover have "p' \<noteq> p" using d2 m by force
    ultimately show ?thesis by simp
  qed
  have dA: "distinct (listA g @ [p])"
    using ok pc(3) unfolding buf_ok_def by simp
  have sA: "\<forall>q \<in> set (listA g @ [p]). simple_path es s q t"
    using ok pc(1) unfolding buf_ok_def by auto
  have "buf_ok es s t cost (listA g @ [p]) (remove1 (c, p) (listB g))"
    unfolding buf_ok_def
  proof (intro conjI allI impI)
    show "\<forall>q \<in> set (listA g @ [p]). simple_path es s q t" by (rule sA)
    show "distinct (listA g @ [p])" by (rule dA)
    show "distinct (map snd (remove1 (c, p) (listB g)))" by (rule d1)
  next
    fix c' p'
    assume m: "(c', p') \<in> set (remove1 (c, p) (listB g))"
    show "simple_path es s p' t" "c' = path_cost es cost p'" "p' \<notin> set (listA g @ [p])"
      using B' [OF m] by blast+
  qed
  then show "buf_ok es s t cost (listA g') (listB g')"
    by (simp add: g')
qed

lemma deviations_ok:
  assumes "simple_path es s prev t" "(c, r) \<in> set (deviations es t cost A prev)"
  shows "simple_path es s r t \<and> c = path_cost es cost r \<and> r \<notin> set A"
proof -
  from assms(2) obtain i spur where i: "1 \<le> i" "i < length prev"
    and sp: "astar_loop (without_ignored es (butlast (take i prev))
                             (ignore_edges_of A i (take i prev)))
                  t (\<lambda>u v. 0) cost [(0, 0, last (take i prev), [])] [] = Some spur"
    and r: "r = butlast (take i prev) @ spur" "c = path_cost es cost r"
    unfolding deviations_iff by blast
  show ?thesis
    using deviation_simple_path(1,2) [OF assms(1) i sp] r by simp
qed

lemma ssp_next_first:
  assumes "prev_path g = None" "listA g = []" "listB g = []"
  shows "ssp_next es s t cost g =
     (case astar_loop es t (\<lambda>u v. 0) cost [(0, 0, s, [])] [] of
        None \<Rightarrow> Inl NetworkXNoPath
      | Some p \<Rightarrow> Inr (Some (p, \<lparr>listA = [p], listB = [], prev_path = Some p\<rparr>)))"
  using assms
  by (simp add: ssp_next_def push_all_def pop_next_def split: option.splits)

lemma ssp_next_later:
  assumes "prev_path g = Some prev"
  shows "ssp_next es s t cost g
           = Inr (pop_next (g\<lparr>listB := push_all (listB g)
                                          (deviations es t cost (listA g) prev)\<rparr>))"
  using assms by (simp add: ssp_next_def)

lemma ssp_next_step:
  assumes ok: "gen_ok es s t cost g" and nx: "ssp_next es s t cost g = Inr (Some (p, g'))"
  shows "gen_ok es s t cost g'" "listA g' = listA g @ [p]" "prev_path g' = Some p"
proof -
  have "gen_ok es s t cost g' \<and> listA g' = listA g @ [p] \<and> prev_path g' = Some p"
  proof (cases "prev_path g")
    case None
    then have e: "listA g = []" "listB g = []" using ok by (simp_all add: gen_ok_def)
    from nx obtain p0 where a: "astar_loop es t (\<lambda>u v. 0) cost [(0, 0, s, [])] [] = Some p0"
      and r: "p = p0" "g' = \<lparr>listA = [p0], listB = [], prev_path = Some p0\<rparr>"
      unfolding ssp_next_first [OF None e] by (auto split: option.splits)
    have "simple_path es s p0 t"
      using astar_loop_valid [OF inv_valid_init a] by (simp add: simple_path_def)
    then show ?thesis
      using r e by (simp add: gen_ok_def buf_ok_def)
  next
    case (Some prev)
    let ?g1 = "g\<lparr>listB := push_all (listB g) (deviations es t cost (listA g) prev)\<rparr>"
    have prev: "listA g \<noteq> []" "prev = last (listA g)"
      using ok Some by (simp_all add: gen_ok_def)
    then have "prev \<in> set (listA g)" by simp
    then have sp: "simple_path es s prev t"
      using ok unfolding gen_ok_def buf_ok_def by blast
    have b: "buf_ok es s t cost (listA g) (listB g)"
      using ok by (simp add: gen_ok_def)
    have b1: "buf_ok es s t cost (listA ?g1) (listB ?g1)"
      using buf_ok_push [OF b deviations_ok [OF sp]] by simp
    have pop: "pop_next ?g1 = Some (p, g')"
      using nx unfolding ssp_next_later [OF Some] by simp
    note r = buf_ok_pop [OF b1 pop]
    show ?thesis
      using r(1,2,3) by (simp add: gen_ok_def)
  qed
  then show "gen_ok es s t cost g'" "listA g' = listA g @ [p]" "prev_path g' = Some p"
    by simp_all
qed

lemma gen_ok_init: "gen_ok es s t cost \<lparr>listA = [], listB = [], prev_path = None\<rparr>"
  by (simp add: gen_ok_def buf_ok_def)

lemma k_shortest_paths_loop_unfold:
  "k_shortest_paths_loop es s t cost g paths k =
     (case ssp_next es s t cost g of
        Inl e \<Rightarrow> Inl e
      | Inr None \<Rightarrow> Inr paths
      | Inr (Some (p, g')) \<Rightarrow>
          (if int (length (paths @ [p])) \<ge> k then Inr (paths @ [p])
           else k_shortest_paths_loop es s t cost g' (paths @ [p]) k))"
  by (rule k_shortest_paths_loop.simps)

lemma k_shortest_paths_loop_ok:
  assumes "gen_ok es s t cost g" "paths = listA g"
    "k_shortest_paths_loop es s t cost g paths k = Inr ps"
  shows "\<exists>g'. gen_ok es s t cost g' \<and> ps = listA g'"
  using assms
proof (induction es s t cost g paths k rule: k_shortest_paths_loop.induct)
  case (1 es s t cost g paths k)
  show ?case
  proof (cases "ssp_next es s t cost g")
    case (Inl e)
    then have False
      using "1.prems"(3) unfolding k_shortest_paths_loop_unfold [of es s t cost g] by simp
    then show ?thesis ..
  next
    case (Inr r)
    show ?thesis
    proof (cases r)
      case None
      then have "ps = paths"
        using "1.prems"(3) Inr unfolding k_shortest_paths_loop_unfold [of es s t cost g]
        by simp
      then have "gen_ok es s t cost g \<and> ps = listA g"
        using "1.prems"(1,2) by simp
      then show ?thesis by (rule exI)
    next
      case (Some pg)
      obtain p g' where pg: "pg = (p, g')" by (cases pg)
      have nx: "ssp_next es s t cost g = Inr (Some (p, g'))"
        using Inr Some pg by simp
      note st = ssp_next_step [OF "1.prems"(1) nx]
      have A': "paths @ [p] = listA g'" using st(2) "1.prems"(2) by simp
      show ?thesis
      proof (cases "k \<le> int (length (paths @ [p]))")
        case True
        then have "ps = paths @ [p]"
          using "1.prems"(3) unfolding k_shortest_paths_loop_unfold [of es s t cost g] nx
          by simp
        then have "gen_ok es s t cost g' \<and> ps = listA g'"
          using st(1) A' by simp
        then show ?thesis by (rule exI)
      next
        case False
        then have "k_shortest_paths_loop es s t cost g' (paths @ [p]) k = Inr ps"
          using "1.prems"(3) unfolding k_shortest_paths_loop_unfold [of es s t cost g] nx
          by simp
        then show ?thesis
          by (rule "1.IH" [OF nx refl refl False st(1) A'])
      qed
    qed
  qed
qed

lemma pop_next_prev:
  assumes "pop_next g = Some (p, g')"
  shows "prev_path g' = Some p"
  using assms by (cases g rule: pop_next_cases) auto

lemma ssp_next_prev:
  assumes "ssp_next es s t cost g = Inr (Some (p, g'))"
  shows "prev_path g' = Some p"
proof (cases "prev_path g")
  case None
  then show ?thesis
    using assms by (auto simp: ssp_next_def intro: pop_next_prev split: option.splits)
next
  case (Some prev)
  then show ?thesis
    using assms unfolding ssp_next_later [OF Some] by (auto intro: pop_next_prev)
qed

lemma k_shortest_paths_loop_later:
  assumes "prev_path g = Some prev"
  shows "\<exists>more. k_shortest_paths_loop es s t cost g paths k = Inr (paths @ more)"
  using assms
proof (induction es s t cost g paths k arbitrary: prev rule: k_shortest_paths_loop.induct)
  case (1 es s t cost g paths k)
  obtain r where r: "ssp_next es s t cost g = Inr r"
    using ssp_next_later [OF "1.prems"] by blast
  show ?case
  proof (cases r)
    case None
    then have "k_shortest_paths_loop es s t cost g paths k = Inr (paths @ [])"
      unfolding k_shortest_paths_loop_unfold [of es s t cost g] r by simp
    then show ?thesis by (rule exI)
  next
    case (Some pg)
    obtain p g' where pg: "pg = (p, g')" by (cases pg)
    have nx: "ssp_next es s t cost g = Inr (Some (p, g'))"
      using r Some pg by simp
    show ?thesis
    proof (cases "k \<le> int (length (paths @ [p]))")
      case True
      then have "k_shortest_paths_loop es s t cost g paths k = Inr (paths @ [p])"
        unfolding k_shortest_paths_loop_unfold [of es s t cost g] nx by simp
      then show ?thesis by (rule exI)
    next
      case False
      obtain more where
        "k_shortest_paths_loop es s t cost g' (paths @ [p]) k = Inr ((paths @ [p]) @ more)"
        using "1.IH" [OF nx refl refl False ssp_next_prev [OF nx]] by blast
      then have "k_shortest_paths_loop es s t cost g paths k = Inr (paths @ (p # more))"
        using False unfolding k_shortest_paths_loop_unfold [of es s t cost g] nx by simp
      then show ?thesis by (rule exI)
    qed
  qed
qed

lemma k_shortest_paths_none:
  assumes "astar_loop es t (\<lambda>u v. 0) cost [(0, 0, s, [])] [] = None"
  shows "k_shortest_paths es s t cost k = Inl NetworkXNoPath"
  unfolding k_shortest_paths_def k_shortest_paths_loop_unfold [of es s t cost _ "[]"]
  by (simp add: ssp_next_first assms)

lemma k_shortest_paths_first:
  assumes "astar_loop es t (\<lambda>u v. 0) cost [(0, 0, s, [])] [] = Some p"
  shows "\<exists>rest. k_shortest_paths es s t cost k = Inr (p # rest) \<and> (k \<le> 1 \<longrightarrow> rest = [])"
proof -
  let ?g0 = "\<lparr>listA = [], listB = [], prev_path = None\<rparr>"
  let ?g1 = "\<lparr>listA = [p], listB = [], prev_path = Some p\<rparr>"
  have nx: "ssp_next es s t cost ?g0 = Inr (Some (p, ?g1))"
    by (simp add: ssp_next_first assms)
  show ?thesis
  proof (cases "k \<le> 1")
    case True
    then have "k_shortest_paths es s t cost k = Inr [p]"
      unfolding k_shortest_paths_def k_shortest_paths_loop_unfold [of es s t cost ?g0] nx
      by simp
    then show ?thesis by simp
  next
    case False
    obtain more where "k_shortest_paths_loop es s t cost ?g1 ([] @ [p]) k = Inr (([] @ [p]) @ more)"
      using k_shortest_paths_loop_later [of ?g1 p es s t cost "[] @ [p]" k] by auto
    then have "k_shortest_paths es s t cost k = Inr (p # more)"
      using False
      unfolding k_shortest_paths_def k_shortest_paths_loop_unfold [of es s t cost ?g0] nx
      by simp
    then show ?thesis using False by simp
  qed
qed

lemma k_shortest_paths_simple:
  assumes "k_shortest_paths es s t cost k = Inr ps"
  shows "\<forall>p \<in> set ps. simple_path es s p t" "distinct ps"
proof -
  obtain g' where "gen_ok es s t cost g'" "ps = listA g'"
    using k_shortest_paths_loop_ok [OF gen_ok_init _ assms [unfolded k_shortest_paths_def]]
    by auto
  then show "\<forall>p \<in> set ps. simple_path es s p t" "distinct ps"
    by (auto simp: gen_ok_def buf_ok_def)
qed




section \<open>The first alternative is the best path\<close>







section \<open>The forecast check of the route view\<close>

lemma get_edge_data_mem:
  assumes "get_edge_data es u v = Some d"
  shows "u \<in> graph_nodes es \<and> v \<in> graph_nodes es"
proof -
  from assms obtain a b where f: "find (\<lambda>(a, b, d). (a = u \<and> b = v) \<or> (a = v \<and> b = u)) es
      = Some (a, b, d)"
    by (auto simp: get_edge_data_def)
  then have "(a, b, d) \<in> set es" "(a = u \<and> b = v) \<or> (a = v \<and> b = u)"
    by (auto simp: find_Some_iff in_set_conv_nth)
  then show ?thesis
    by (force simp: graph_nodes_def)
qed

lemma is_walk_nodes:
  "is_walk es p \<Longrightarrow> set p \<subseteq> insert (hd p) (graph_nodes es)"
proof (induction es p rule: is_walk.induct)
  case (3 es u v rest)
  then obtain d where "get_edge_data es u v = Some d" by auto
  then have "v \<in> graph_nodes es" by (rule get_edge_data_mem [THEN conjunct2])
  then show ?case using 3 by auto
qed simp_all

lemma get_edge_data_map:
  "get_edge_data (map (\<lambda>(a, b, d). (a, b, \<phi> d)) es) u v = map_option \<phi> (get_edge_data es u v)"
  by (induction es) (auto simp: get_edge_data_def)

lemma is_walk_map:
  "is_walk (map (\<lambda>(a, b, d). (a, b, \<phi> d)) es) p = is_walk es p"
  by (induction es p rule: is_walk.induct) (simp_all add: get_edge_data_map)

lemma attributed_lookup:
  assumes "attributed g" "in_graph n g"
  shows "\<exists>d. map_of (nodes g) n = Some (Some d)"
proof -
  obtain x where x: "map_of (nodes g) n = Some x"
    using assms(2) by (cases "map_of (nodes g) n") (auto simp: in_graph_def map_of_eq_None_iff)
  then have "(n, x) \<in> set (nodes g)" by (rule map_of_SomeD)
  then have "x \<noteq> None" using assms(1) by (auto simp: attributed_def list_all_iff)
  then show ?thesis using x by auto
qed

lemma attributed_graph_nodes:
  assumes "attributed g" "n \<in> graph_nodes (graph_edges h g)"
  shows "in_graph n g"
  using assms by (auto simp: attributed_def list_all_iff graph_nodes_def graph_edges_def)

lemma coords_of_ok:
  assumes "\<forall>n \<in> set p. \<exists>d. map_of (nodes g) n = Some (Some d)"
  shows "\<exists>cs. coords_of g p = Inr cs"
  using assms
proof (induction p)
  case Nil
  then show ?case by simp
next
  case (Cons n ns)
  then obtain d cs where "map_of (nodes g) n = Some (Some d)" "coords_of g ns = Inr cs"
    by auto
  then show ?case by simp
qed

lemma route_entry_ok:
  assumes "attributed (GRAPH st)" "in_graph (hd p) (GRAPH st)"
    "is_walk (graph_edges (heap st) (GRAPH st)) p"
  shows "\<exists>x. route_entry st p = Inr x"
proof -
  have "in_graph n (GRAPH st)" if "n \<in> set p" for n
    using is_walk_nodes [OF assms(3)] that assms(2) attributed_graph_nodes [OF assms(1)]
    by auto
  then have "\<forall>n \<in> set p. \<exists>d. map_of (nodes (GRAPH st)) n = Some (Some d)"
    using attributed_lookup [OF assms(1)] by blast
  then obtain cs where "coords_of (GRAPH st) p = Inr cs"
    using coords_of_ok by blast
  then show ?thesis by (simp add: route_entry_def)
qed

lemma route_entries_ok:
  assumes "\<forall>p \<in> set ps. \<exists>x. route_entry st p = Inr x"
  shows "\<exists>xs. route_entries st ps = Inr xs"
  using assms
proof (induction ps)
  case Nil
  then show ?case by simp
next
  case (Cons p ps)
  then obtain x xs where "route_entry st p = Inr x" "route_entries st ps = Inr xs"
    by auto
  then show ?case by simp
qed

lemma k_shortest_paths_ok:
  assumes "walk es s q t"
  shows "\<exists>ps. k_shortest_paths es s t cost k = Inr ps \<and> (\<forall>p \<in> set ps. is_walk es p \<and> hd p = s)"
proof -
  have "astar_loop es t (\<lambda>u v. 0) cost [(0, 0, s, [])] [] \<noteq> None"
    by (rule astar_loop_complete [OF inv_front_init _ assms]) simp
  then obtain p where "astar_loop es t (\<lambda>u v. 0) cost [(0, 0, s, [])] [] = Some p"
    by auto
  then obtain rest where ks: "k_shortest_paths es s t cost k = Inr (p # rest)"
    using k_shortest_paths_first by blast
  show ?thesis
    using ks k_shortest_paths_simple(1) [OF ks]
    by (auto simp: simple_path_def walk_def)
qed

lemma route_distance_ok:
  assumes "attributed (GRAPH st)" "in_graph s (GRAPH st)" "in_graph t (GRAPH st)"
    "walk (graph_edges (heap st) (GRAPH st)) s q t"
  shows "\<exists>x xs. route_distance s t k out st
           = (Inr (out\<lparr>shortest := Some x, shortest_alts := Some xs\<rparr>), st)"
proof -
  let ?es = "graph_edges (heap st) (GRAPH st)"
  have n: "s \<in> set (map fst (nodes (GRAPH st)))" "t \<in> set (map fst (nodes (GRAPH st)))"
    using assms(2,3) unfolding in_graph_def by simp_all
  obtain sp where sp: "astar_distance_only st s t = Inr sp"
    unfolding astar_distance_only_def
    using astar_path_complete [OF n assms(4)] by blast
  then have w: "is_walk ?es sp" "hd sp = s"
    using astar_path_walk [of _ ?es s t _ _ sp]
    by (auto simp: astar_distance_only_def walk_def)
  obtain ps where ps: "k_shortest_paths ?es s t (weight_attr ''weight'') k = Inr ps"
    "\<forall>p \<in> set ps. is_walk ?es p \<and> hd p = s"
    using k_shortest_paths_ok [OF assms(4)] by blast
  obtain x where x: "route_entry st sp = Inr x"
    using route_entry_ok [OF assms(1) _ w(1)] w(2) assms(2) by auto
  have "\<forall>p \<in> set ps. \<exists>x. route_entry st p = Inr x"
    using route_entry_ok [OF assms(1)] ps(2) assms(2) by auto
  then obtain xs where xs: "route_entries st ps = Inr xs"
    using route_entries_ok by blast
  have "route_distance s t k out st
          = (Inr (out\<lparr>shortest := Some x, shortest_alts := Some xs\<rparr>), st)"
    by (simp add: route_distance_def sp ps(1) x xs)
  then show ?thesis by blast
qed

lemma route_penalized_ok:
  assumes "wf_state st" "attributed (GRAPH st)" "in_graph s (GRAPH st)" "in_graph t (GRAPH st)"
    "walk (graph_edges (heap st) (GRAPH st)) s q t"
  shows "\<exists>x xs st'. route_penalized s t k out st
           = (Inr (out\<lparr>best := Some x, best_alts := Some xs\<rparr>), st') \<and> frame st st'"
proof -
  let ?es = "graph_edges (heap st) (GRAPH st)"
  let ?es' = "map (\<lambda>(u, v, d). (u, v, penalized (forecast_map st) d)) ?es"
  have n: "s \<in> set (map fst (nodes (GRAPH st)))" "t \<in> set (map fst (nodes (GRAPH st)))"
    using assms(3,4) unfolding in_graph_def by simp_all
  obtain bp where bp: "astar_with_congestion st s t = Inr bp"
    unfolding astar_with_congestion_def
    using astar_path_complete [OF n assms(5)] by blast
  then have w: "is_walk ?es bp" "hd bp = s"
    using astar_path_walk [of _ ?es s t _ _ bp]
    by (auto simp: astar_with_congestion_def walk_def)
  obtain Gp st1 where g: "build_penalized_graph st = (Gp, st1)"
    by (cases "build_penalized_graph st")
  note props = build_penalized_graph_props [OF assms(1) g]
  have G1: "GRAPH st1 = GRAPH st" using props(1) by (simp add: frame_def)
  have es1: "graph_edges (heap st1) (GRAPH st1) = ?es"
    by (rule frame_view(1) [OF assms(1) props(1)])
  have "walk ?es' s q t"
    using assms(5) by (simp add: walk_def is_walk_map)
  then obtain ps where ps: "k_shortest_paths ?es' s t (weight_attr ''pen_weight'') k = Inr ps"
    "\<forall>p \<in> set ps. is_walk ?es' p \<and> hd p = s"
    using k_shortest_paths_ok by blast
  have a1: "attributed (GRAPH st1)" "in_graph s (GRAPH st1)"
    using assms(2,3) by (simp_all add: G1)
  have entry: "\<exists>x. route_entry st1 p = Inr x" if "is_walk ?es p" "hd p = s" for p
  proof -
    have "is_walk (graph_edges (heap st1) (GRAPH st1)) p"
      using that(1) unfolding es1 .
    then show ?thesis
      using route_entry_ok [OF a1(1)] a1(2) that(2) by blast
  qed
  obtain x where x: "route_entry st1 bp = Inr x"
    using entry [OF w] by blast
  have "\<forall>p \<in> set ps. \<exists>x. route_entry st1 p = Inr x"
    using entry ps(2) by (simp add: is_walk_map)
  then obtain xs where xs: "route_entries st1 ps = Inr xs"
    using route_entries_ok by blast
  have "route_penalized s t k out st = (Inr (out\<lparr>best := Some x, best_alts := Some xs\<rparr>), st1)"
    by (simp add: route_penalized_def bp g props(3) ps(1) x xs)
  then show ?thesis using props(1) by blast
qed

lemma route_search_ok:
  assumes "wf_state st" "attributed (GRAPH st)" "in_graph s (GRAPH st)" "in_graph t (GRAPH st)"
    "walk (graph_edges (heap st) (GRAPH st)) s q t"
    "mode \<in> {''both'', ''penalized'', ''distance''}"
  shows "\<exists>out st'. route_search mode s t k st = (Inr out, st')
           \<and> out \<noteq> \<lparr>best = None, best_alts = None, shortest = None, shortest_alts = None\<rparr>"
proof -
  let ?out = "\<lparr>best = None, best_alts = None, shortest = None, shortest_alts = None\<rparr>"
  show ?thesis
  proof (cases "mode = ''distance''")
    case True
    obtain x xs where "route_distance s t k ?out st
        = (Inr (?out\<lparr>shortest := Some x, shortest_alts := Some xs\<rparr>), st)"
      using route_distance_ok [OF assms(2-5)] by blast
    then show ?thesis using True by (simp add: route_search_def)
  next
    case False
    obtain x xs st1 where p: "route_penalized s t k ?out st
        = (Inr (?out\<lparr>best := Some x, best_alts := Some xs\<rparr>), st1)" and f: "frame st st1"
      using route_penalized_ok [OF assms(1-5)] by blast
    show ?thesis
    proof (cases "mode = ''penalized''")
      case True
      then show ?thesis using p by (simp add: route_search_def)
    next
      case nP: False
      then have both: "mode = ''both''" using False assms(6) by simp
      have G1: "GRAPH st1 = GRAPH st" using f by (simp add: frame_def)
      have es1: "graph_edges (heap st1) (GRAPH st1) = graph_edges (heap st) (GRAPH st)"
        by (rule frame_view(1) [OF assms(1) f])
      have a1: "attributed (GRAPH st1)" "in_graph s (GRAPH st1)" "in_graph t (GRAPH st1)"
        using assms(2-4) by (simp_all add: G1)
      have w1: "walk (graph_edges (heap st1) (GRAPH st1)) s q t"
        using assms(5) unfolding es1 .
      obtain y ys where "route_distance s t k (?out\<lparr>best := Some x, best_alts := Some xs\<rparr>) st1
          = (Inr (?out\<lparr>best := Some x, best_alts := Some xs, shortest := Some y,
                        shortest_alts := Some ys\<rparr>), st1)"
        using route_distance_ok [OF a1 w1, of k "?out\<lparr>best := Some x, best_alts := Some xs\<rparr>"]
        by auto
      then show ?thesis using both p by (simp add: route_search_def)
    qed
  qed
qed

lemma forecast_Ok_loaded:
  assumes "reachable M st0" "forecast M freq st0 = (Ok tbl, st)"
  shows "forecast_loaded st"
proof -
  have i: "wf_state st0" "cache_ok st0" "active_ok st0"
    using reachable_invariant [OF assms(1)] by simp_all
  have ne: "tbl \<noteq> []"
    using forecast_preserves [OF i assms(2)] by simp
  have "forecast_map st = Some (by_edge_id tbl)"
    using assms(2) by (rule forecast_Ok_cases) simp_all
  then show ?thesis using ne by (simp add: forecast_loaded_def by_edge_id_def)
qed

text \<open>
  C4 (as amended). The check for an active forecast does not look at the mode: a route
  request is answered with the error "forecast not loaded" exactly when its \<open>k\<close> is an
  integer (or absent), source and target are given, not empty and nodes of the graph, and
  no forecast is active. A successful forecast request leaves a forecast active. With a
  forecast active, on a network whose nodes all carry their attributes, a request with
  integer \<open>k\<close>, mode both, penalized or distance, and endpoints of the graph that some
  path joins succeeds.
\<close>

theorem route_forecast_gate:
  "(fst (route req st) = Err 400 ''forecast not loaded; call /forecast first''
      \<longleftrightarrow> (\<exists>k s t. arg_or (k_arg req) 3 = Parsed k \<and> source_arg req = Some s
             \<and> target_arg req = Some t \<and> s \<noteq> [] \<and> t \<noteq> [] \<and> in_graph s (GRAPH st)
             \<and> in_graph t (GRAPH st) \<and> \<not> forecast_loaded st))
   \<and> (reachable M st0 \<and> forecast M freq st0 = (Ok tbl, st1) \<longrightarrow> forecast_loaded st1)
   \<and> (wf_state st \<and> forecast_loaded st \<and> attributed (GRAPH st)
        \<and> arg_or (k_arg req) 3 = Parsed k \<and> source_arg req = Some s \<and> target_arg req = Some t
        \<and> s \<noteq> [] \<and> t \<noteq> [] \<and> in_graph s (GRAPH st) \<and> in_graph t (GRAPH st)
        \<and> walk (graph_edges (heap st) (GRAPH st)) s q t
        \<and> (case mode_arg req of None \<Rightarrow> ''both'' | Some m \<Rightarrow> m)
            \<in> {''both'', ''penalized'', ''distance''}
      \<longrightarrow> (\<exists>out st'. route req st = (Ok out, st') \<and> frame st st'))"
proof (intro conjI impI)
  have r: "route_response r \<noteq> Err 400 ''forecast not loaded; call /forecast first''" for r
    by (auto simp: route_response_def split: sum.splits)
  show "fst (route req st) = Err 400 ''forecast not loaded; call /forecast first''
      \<longleftrightarrow> (\<exists>k s t. arg_or (k_arg req) 3 = Parsed k \<and> source_arg req = Some s
             \<and> target_arg req = Some t \<and> s \<noteq> [] \<and> t \<noteq> [] \<and> in_graph s (GRAPH st)
             \<and> in_graph t (GRAPH st) \<and> \<not> forecast_loaded st)"
    unfolding route_def Let_def forecast_loaded_def
    using r by (auto split: parsed.splits option.splits prod.splits)
next
  assume "reachable M st0 \<and> forecast M freq st0 = (Ok tbl, st1)"
  then show "forecast_loaded st1"
    using forecast_Ok_loaded by blast
next
  let ?mode = "case mode_arg req of None \<Rightarrow> ''both'' | Some m \<Rightarrow> m"
  assume a: "wf_state st \<and> forecast_loaded st \<and> attributed (GRAPH st)
        \<and> arg_or (k_arg req) 3 = Parsed k \<and> source_arg req = Some s \<and> target_arg req = Some t
        \<and> s \<noteq> [] \<and> t \<noteq> [] \<and> in_graph s (GRAPH st) \<and> in_graph t (GRAPH st)
        \<and> walk (graph_edges (heap st) (GRAPH st)) s q t
        \<and> ?mode \<in> {''both'', ''penalized'', ''distance''}"
  then obtain out st' where s: "route_search ?mode s t k st = (Inr out, st')"
    "out \<noteq> \<lparr>best = None, best_alts = None, shortest = None, shortest_alts = None\<rparr>"
    using route_search_ok [of st s t q ?mode k] by blast
  have "route req st = (Ok out, st')"
    using a s by (simp add: route_def route_response_def forecast_loaded_def)
  moreover have "frame st st'"
    using route_search_frame [OF _ s(1)] a by simp
  ultimately show "\<exists>out st'. route req st = (Ok out, st') \<and> frame st st'"
    by blast
qed

theorem route_forecast_gate_witness:
  "fst (route (abc_request ''A'' ''C'' ''penalized'' 3) abc_start)
     = Err 400 ''forecast not loaded; call /forecast first''
   \<and> reachable predict_350 abc_start
   \<and> forecast predict_350 no_args abc_start = (Ok abc_table, abc_loaded)
   \<and> forecast_loaded abc_loaded
   \<and> walk (graph_edges (heap abc_loaded) (GRAPH abc_loaded)) ''A'' [''A'', ''B'', ''C''] ''C''
   \<and> (\<exists>out st'. route (abc_request ''A'' ''C'' ''penalized'' 3) abc_loaded = (Ok out, st')
         \<and> frame abc_loaded st')"
proof -
  have w: "walk (graph_edges (heap abc_loaded) (GRAPH abc_loaded)) ''A'' [''A'', ''B'', ''C''] ''C''"
    by (simp add: walk_def get_edge_data_def graph_edges_def abc_loaded_def abc_start_def
        abc_graph_def)
  have at: "attributed (GRAPH abc_loaded)"
    by (simp add: attributed_def in_graph_def abc_loaded_def abc_start_def abc_graph_def)
  have g: "in_graph ''A'' (GRAPH abc_loaded)" "in_graph ''C'' (GRAPH abc_loaded)"
    "in_graph ''A'' (GRAPH abc_start)" "in_graph ''C'' (GRAPH abc_start)"
    by (simp_all add: in_graph_def abc_loaded_def abc_start_def abc_graph_def)
  have nl: "\<not> forecast_loaded abc_start"
    by (simp add: forecast_loaded_def abc_start_def)
  note t1 = route_forecast_gate [of "abc_request ''A'' ''C'' ''penalized'' 3" abc_start
      predict_350 abc_start no_args abc_table abc_loaded 3 "''A''" "''C''" "[''A'', ''B'', ''C'']"]
  note t2 = route_forecast_gate [of "abc_request ''A'' ''C'' ''penalized'' 3" abc_loaded
      predict_350 abc_start no_args abc_table abc_loaded 3 "''A''" "''C''" "[''A'', ''B'', ''C'']"]
  have l: "forecast_loaded abc_loaded"
    using t2 abc_reachable abc_forecast by blast
  have "fst (route (abc_request ''A'' ''C'' ''penalized'' 3) abc_start)
     = Err 400 ''forecast not loaded; call /forecast first''"
    using t1 g nl by (simp add: abc_request_def arg_or_def)
  moreover have "\<exists>out st'. route (abc_request ''A'' ''C'' ''penalized'' 3) abc_loaded = (Ok out, st')
         \<and> frame abc_loaded st'"
    using t2 [THEN conjunct2, THEN conjunct2] w at g l abc_wf(2)
    by (simp add: abc_request_def arg_or_def)
  ultimately show ?thesis
    using abc_reachable [of predict_350] abc_forecast l w by simp
qed

text \<open>
  C4 as stated fails: before any forecast a request with mode distance, between nodes of
  the graph that a path joins, is answered with the error "forecast not loaded" as well.
\<close>

theorem route_forecast_gate_counterexample:
  "reachable predict_350 abc_start \<and> forecast_map abc_start = None
   \<and> in_graph ''A'' (GRAPH abc_start) \<and> in_graph ''C'' (GRAPH abc_start)
   \<and> walk (graph_edges (heap abc_start) (GRAPH abc_start)) ''A'' [''A'', ''B'', ''C''] ''C''
   \<and> route (abc_request ''A'' ''C'' ''distance'' 3) abc_start
       = (Err 400 ''forecast not loaded; call /forecast first'', abc_start)"
proof -
  have "reachable predict_350 abc_start" by (rule abc_reachable)
  moreover have "route (abc_request ''A'' ''C'' ''distance'' 3) abc_start
       = (Err 400 ''forecast not loaded; call /forecast first'', abc_start)"
    by (simp add: route_def abc_request_def arg_or_def in_graph_def abc_start_def abc_graph_def)
  moreover have "walk (graph_edges (heap abc_start) (GRAPH abc_start)) ''A''
      [''A'', ''B'', ''C''] ''C''"
    by (simp add: walk_def get_edge_data_def graph_edges_def abc_start_def abc_graph_def)
  ultimately show ?thesis
    by (simp add: in_graph_def abc_start_def abc_graph_def)
qed

section \<open>The alternatives in order of cost\<close>




















end
